theory Spec2Isabelle
  imports Complex_Main
begin

section \<open>Shared Python-level notions\<close>

text \<open>
  The three scripts (\<open>b92.py\<close>, \<open>bb84.py\<close>, \<open>e91.py\<close>) are embedded as HOL functions.
  A raised exception is a value \<open>Inl e\<close> of the result type; a normal return is \<open>Inr v\<close>.
  \<open>ValueError\<close> carries the message of the \<open>raise\<close> statement, \<open>IndexError\<close> is what a
  list or string subscript out of range raises, \<open>CircuitError\<close> is what the circuit
  library raises for a qubit or classical-bit index outside the circuit.
\<close>

datatype py_error = ValueError string | IndexError | CircuitError

text \<open>\<open>xs[i]\<close> for an index produced by \<open>range\<close> (so never negative).\<close>

definition list_index :: "'a list \<Rightarrow> nat \<Rightarrow> py_error + 'a" where
  "list_index xs i = (if i < length xs then Inr (xs ! i) else Inl IndexError)"

text \<open>\<open>s[i]\<close> on a Python \<open>str\<close>: the one-character string at position \<open>i\<close>.\<close>

definition str_index :: "string \<Rightarrow> nat \<Rightarrow> py_error + string" where
  "str_index s i = (if i < length s then Inr [s ! i] else Inl IndexError)"

section \<open>BB84: basis reconciliation (\<open>bb84.py\<close>, lines 77--84)\<close>

text \<open>
  The body of \<open>for i in range(len(Sam_bases))\<close>, run over the remaining indices, with
  the two result lists \<open>shared_key_Sam\<close> and \<open>shared_key_Ron\<close> as the loop state. The
  subscripts are evaluated in the order of the source: \<open>Sam_bases[i]\<close>, \<open>Ron_bases[i]\<close>,
  and on a match \<open>Sam_bits[i]\<close>, then \<open>Ron_results[i]\<close>.
\<close>

fun reconcile_loop ::
  "int list \<Rightarrow> int list \<Rightarrow> int list \<Rightarrow> int list \<Rightarrow> nat list \<Rightarrow>
   int list \<times> int list \<Rightarrow> py_error + (int list \<times> int list)" where
  "reconcile_loop Sam_bases Ron_bases Sam_bits Ron_results [] acc = Inr acc"
| "reconcile_loop Sam_bases Ron_bases Sam_bits Ron_results (i # rest) (shared_key_Sam, shared_key_Ron) =
     (case list_index Sam_bases i of
        Inl e \<Rightarrow> Inl e
      | Inr sb \<Rightarrow>
     (case list_index Ron_bases i of
        Inl e \<Rightarrow> Inl e
      | Inr rb \<Rightarrow>
        if sb = rb then
          (case list_index Sam_bits i of
             Inl e \<Rightarrow> Inl e
           | Inr sv \<Rightarrow>
          (case list_index Ron_results i of
             Inl e \<Rightarrow> Inl e
           | Inr rv \<Rightarrow>
               reconcile_loop Sam_bases Ron_bases Sam_bits Ron_results rest
                 (shared_key_Sam @ [sv], shared_key_Ron @ [rv])))
        else reconcile_loop Sam_bases Ron_bases Sam_bits Ron_results rest
               (shared_key_Sam, shared_key_Ron)))"

definition basis_reconciliation ::
  "int list \<Rightarrow> int list \<Rightarrow> int list \<Rightarrow> int list \<Rightarrow> py_error + (int list \<times> int list)" where
  "basis_reconciliation Sam_bases Ron_bases Sam_bits Ron_results =
     reconcile_loop Sam_bases Ron_bases Sam_bits Ron_results [0..<length Sam_bases] ([], [])"

section \<open>The circuit library and the quantum channel\<close>

text \<open>
  The scripts talk to the circuit library only by creating a circuit over a number of
  qubits and classical bits, appending gates and measurements, composing two circuits,
  and handing one circuit to the simulator for a single shot. A circuit is therefore its
  two sizes and the list of instructions appended so far. An instruction on a qubit or
  classical bit the circuit does not have is refused by the library.
\<close>

datatype gate = H_gate nat | X_gate nat | Z_gate nat | Measure nat nat

record circuit =
  num_qubits :: nat
  num_clbits :: nat
  instructions :: "gate list"

definition QuantumCircuit :: "nat \<Rightarrow> nat \<Rightarrow> circuit" where
  "QuantumCircuit nq nc = \<lparr>num_qubits = nq, num_clbits = nc, instructions = []\<rparr>"

definition apply_gate :: "circuit \<Rightarrow> gate \<Rightarrow> circuit" where
  "apply_gate qc g = qc\<lparr>instructions := instructions qc @ [g]\<rparr>"

definition circuit_h :: "circuit \<Rightarrow> nat \<Rightarrow> py_error + circuit" where
  "circuit_h qc i = (if i < num_qubits qc then Inr (apply_gate qc (H_gate i)) else Inl CircuitError)"

definition circuit_x :: "circuit \<Rightarrow> nat \<Rightarrow> py_error + circuit" where
  "circuit_x qc i = (if i < num_qubits qc then Inr (apply_gate qc (X_gate i)) else Inl CircuitError)"

definition circuit_z :: "circuit \<Rightarrow> nat \<Rightarrow> py_error + circuit" where
  "circuit_z qc i = (if i < num_qubits qc then Inr (apply_gate qc (Z_gate i)) else Inl CircuitError)"

definition circuit_measure :: "circuit \<Rightarrow> nat \<Rightarrow> nat \<Rightarrow> py_error + circuit" where
  "circuit_measure qc q c =
     (if q < num_qubits qc \<and> c < num_clbits qc then Inr (apply_gate qc (Measure q c))
      else Inl CircuitError)"

text \<open>\<open>circuit.compose(other)\<close>: a new circuit, \<open>other\<close> appended on the first qubits.\<close>

definition compose :: "circuit \<Rightarrow> circuit \<Rightarrow> py_error + circuit" where
  "compose qc other =
     (if num_qubits other \<le> num_qubits qc \<and> num_clbits other \<le> num_clbits qc
      then Inr (qc\<lparr>instructions := instructions qc @ instructions other\<rparr>)
      else Inl CircuitError)"

text \<open>
  The simulator is not code of the repository: it is a parameter. A channel answers a
  single-shot request for a circuit with the outcome string (\<open>respond\<close>), and records
  the requests it has received, so that "no channel interaction" can be stated.
\<close>

record channel =
  respond :: "circuit \<Rightarrow> string"
  requests :: "circuit list"

definition run_single_shot :: "channel \<Rightarrow> circuit \<Rightarrow> string \<times> channel" where
  "run_single_shot ch qc = (respond ch qc, ch\<lparr>requests := requests ch @ [qc]\<rparr>)"

section \<open>B92 (\<open>b92.py\<close>)\<close>

text \<open>
  \<open>encode_b92_with_alice_basis\<close>, lines 6--21: the loop over
  \<open>enumerate(zip(alice_bits, alice_bases))\<close> with the loop index and the circuit as state.
\<close>

fun encode_loop :: "nat \<Rightarrow> (string \<times> int) list \<Rightarrow> circuit \<Rightarrow> py_error + circuit" where
  "encode_loop i [] qc = Inr qc"
| "encode_loop i ((abit, basis) # rest) qc =
     (if basis = 0 then
        (if abit = ''1''
         then Inl (ValueError ''Inconsistent input: bit '1' with basis '0' in B92'')
         else encode_loop (Suc i) rest qc)
      else if basis = 1 then
        (if abit = ''0''
         then Inl (ValueError ''Inconsistent input: bit '0' with basis '1' in B92'')
         else (case circuit_h qc i of
                 Inl e \<Rightarrow> Inl e
               | Inr qc' \<Rightarrow> encode_loop (Suc i) rest qc'))
      else Inl (ValueError ''Invalid Alice's basis. Must be 0 or 1 for B92.''))"

definition encode_b92_with_alice_basis :: "string list \<Rightarrow> int list \<Rightarrow> py_error + circuit" where
  "encode_b92_with_alice_basis alice_bits alice_bases =
     encode_loop 0 (zip alice_bits alice_bases)
       (QuantumCircuit (length alice_bits) (length alice_bits))"

text \<open>\<open>measure_b92\<close>, lines 24--43.\<close>

fun measure_loop :: "nat \<Rightarrow> int list \<Rightarrow> circuit \<Rightarrow> py_error + circuit" where
  "measure_loop i [] meas = Inr meas"
| "measure_loop i (basis # rest) meas =
     (if basis = 0 then
        (case circuit_measure meas i i of
           Inl e \<Rightarrow> Inl e
         | Inr m \<Rightarrow> measure_loop (Suc i) rest m)
      else if basis = 1 then
        (case circuit_h meas i of
           Inl e \<Rightarrow> Inl e
         | Inr m \<Rightarrow>
        (case circuit_measure m i i of
           Inl e \<Rightarrow> Inl e
         | Inr m' \<Rightarrow> measure_loop (Suc i) rest m'))
      else Inl (ValueError ''Invalid measurement basis. Must be 0 or 1.''))"

definition measure_b92 ::
  "channel \<Rightarrow> circuit \<Rightarrow> nat \<Rightarrow> int list \<Rightarrow> py_error + (string \<times> channel)" where
  "measure_b92 ch circ nq measurement_bases =
     (case measure_loop 0 measurement_bases (QuantumCircuit nq nq) of
        Inl e \<Rightarrow> Inl e
      | Inr meas \<Rightarrow>
     (case compose circ meas of
        Inl e \<Rightarrow> Inl e
      | Inr combined_circuit \<Rightarrow> Inr (run_single_shot ch combined_circuit)))"

text \<open>Lines 88--95: the state label the sender's basis implies.\<close>

fun sent_states_loop :: "int list \<Rightarrow> string list \<Rightarrow> py_error + string list" where
  "sent_states_loop [] alice_sent_states = Inr alice_sent_states"
| "sent_states_loop (basis # rest) alice_sent_states =
     (if basis = 0 then sent_states_loop rest (alice_sent_states @ [''H''])
      else if basis = 1 then sent_states_loop rest (alice_sent_states @ [''+''])
      else Inl (ValueError ''Invalid Alice's basis.''))"

text \<open>
  Lines 116--129: the sifting loop over \<open>range(num_bits)\<close>, with \<open>bob_received_bits\<close> and
  \<open>bob_conclusive_indices\<close> as the loop state.
\<close>

fun sift_loop ::
  "string list \<Rightarrow> int list \<Rightarrow> string \<Rightarrow> nat list \<Rightarrow> string list \<times> nat list \<Rightarrow>
   py_error + (string list \<times> nat list)" where
  "sift_loop alice_sent_states bob_measurement_bases bob_measurements [] acc = Inr acc"
| "sift_loop alice_sent_states bob_measurement_bases bob_measurements (i # rest)
     (bob_received_bits, bob_conclusive_indices) =
     (case list_index alice_sent_states i of
        Inl e \<Rightarrow> Inl e
      | Inr alice_state \<Rightarrow>
     (case list_index bob_measurement_bases i of
        Inl e \<Rightarrow> Inl e
      | Inr bob_basis \<Rightarrow>
     (case str_index bob_measurements i of
        Inl e \<Rightarrow> Inl e
      | Inr bob_result \<Rightarrow>
        if alice_state = ''H'' \<and> bob_basis = 1 \<and> bob_result = ''1'' then
          sift_loop alice_sent_states bob_measurement_bases bob_measurements rest
            (bob_received_bits @ [''0''], bob_conclusive_indices @ [i])
        else if alice_state = ''+'' \<and> bob_basis = 0 \<and> bob_result = ''1'' then
          sift_loop alice_sent_states bob_measurement_bases bob_measurements rest
            (bob_received_bits @ [''1''], bob_conclusive_indices @ [i])
        else
          sift_loop alice_sent_states bob_measurement_bases bob_measurements rest
            (bob_received_bits, bob_conclusive_indices))))"

text \<open>Line 135: \<open>[alice_bits[i] for i in bob_conclusive_indices]\<close>.\<close>

fun agreed_key :: "string list \<Rightarrow> nat list \<Rightarrow> py_error + string list" where
  "agreed_key alice_bits [] = Inr []"
| "agreed_key alice_bits (i # rest) =
     (case list_index alice_bits i of
        Inl e \<Rightarrow> Inl e
      | Inr b \<Rightarrow>
     (case agreed_key alice_bits rest of
        Inl e \<Rightarrow> Inl e
      | Inr bs \<Rightarrow> Inr (b # bs)))"

text \<open>
  \<open>b92_protocol_user_input_bases_bits_bob\<close>, lines 72--141. The four values read from
  the console (lines 74--86) are the arguments; the prints are left out. Only a
  \<open>ValueError\<close> of the encoder is caught (lines 97--101) and turned into the pair of
  empty keys; every other exception leaves the function.
\<close>

definition b92_protocol ::
  "channel \<Rightarrow> nat \<Rightarrow> int list \<Rightarrow> string list \<Rightarrow> int list \<Rightarrow>
   py_error + ((string \<times> string) \<times> channel)" where
  "b92_protocol ch num_bits alice_bases alice_bits bob_measurement_bases =
     (case sent_states_loop alice_bases [] of
        Inl e \<Rightarrow> Inl e
      | Inr alice_sent_states \<Rightarrow>
     (case encode_b92_with_alice_basis alice_bits alice_bases of
        Inl e \<Rightarrow> (case e of ValueError m \<Rightarrow> Inr (([], []), ch) | _ \<Rightarrow> Inl e)
      | Inr quantum_channel \<Rightarrow>
     (case measure_b92 ch quantum_channel num_bits bob_measurement_bases of
        Inl e \<Rightarrow> Inl e
      | Inr (bob_measurements, ch') \<Rightarrow>
     (case sift_loop alice_sent_states bob_measurement_bases bob_measurements
             [0..<num_bits] ([], []) of
        Inl e \<Rightarrow> Inl e
      | Inr (bob_received_bits, bob_conclusive_indices) \<Rightarrow>
     (case agreed_key alice_bits bob_conclusive_indices of
        Inl e \<Rightarrow> Inl e
      | Inr agreed_alice_key \<Rightarrow>
          Inr ((concat agreed_alice_key, concat bob_received_bits), ch'))))))"

section \<open>The randomness source\<close>

text \<open>
  Python's generator is ambient state. Here it is the sequence of values its future calls
  return; a call takes the head and leaves the rest. In \<open>bb84.py\<close> the calls are
  \<open>random.random()\<close>, returning a float in the half-open interval from 0 to 1 (a
  hypothesis of the theorems that need it); in \<open>e91.py\<close> they are \<open>random.randint(0, 1)\<close>.
\<close>

type_synonym 'a source = "nat \<Rightarrow> 'a"

definition draw :: "'a source \<Rightarrow> 'a \<times> 'a source" where
  "draw g = (g 0, \<lambda>n. g (Suc n))"

section \<open>BB84 (\<open>bb84.py\<close>)\<close>

text \<open>\<open>Sam_transmission_multi_qubit\<close>, lines 24--45: the loop over \<open>range(num_qubits)\<close>.\<close>

fun transmission_loop :: "int list \<Rightarrow> int list \<Rightarrow> nat list \<Rightarrow> circuit \<Rightarrow> py_error + circuit" where
  "transmission_loop Sam_bits Sam_bases [] qc = Inr qc"
| "transmission_loop Sam_bits Sam_bases (i # rest) qc =
     (case list_index Sam_bits i of
        Inl e \<Rightarrow> Inl e
      | Inr abit \<Rightarrow>
     (case list_index Sam_bases i of
        Inl e \<Rightarrow> Inl e
      | Inr basis \<Rightarrow>
        if basis = 0 then
          (if abit = 1 then
             (case circuit_x qc i of
                Inl e \<Rightarrow> Inl e
              | Inr qc' \<Rightarrow> transmission_loop Sam_bits Sam_bases rest qc')
           else transmission_loop Sam_bits Sam_bases rest qc)
        else
          (if abit = 0 then
             (case circuit_h qc i of
                Inl e \<Rightarrow> Inl e
              | Inr qc' \<Rightarrow> transmission_loop Sam_bits Sam_bases rest qc')
           else
             (case circuit_h qc i of
                Inl e \<Rightarrow> Inl e
              | Inr qc' \<Rightarrow>
             (case circuit_z qc' i of
                Inl e \<Rightarrow> Inl e
              | Inr qc'' \<Rightarrow> transmission_loop Sam_bits Sam_bases rest qc'')))))"

definition Sam_transmission_multi_qubit :: "int list \<Rightarrow> int list \<Rightarrow> py_error + circuit list" where
  "Sam_transmission_multi_qubit Sam_bits Sam_bases =
     (let num_bits = length Sam_bits;
          nq = num_bits
      in case transmission_loop Sam_bits Sam_bases [0..<nq] (QuantumCircuit nq nq) of
           Inl e \<Rightarrow> Inl e
         | Inr qc \<Rightarrow> Inr [qc])"

text \<open>
  \<open>Ron_measurement_multi_qubit_with_noise\<close>, lines 48--74, in its three phases: the
  measurement circuit (lines 51--58), the single shot and the reordering of its outcome
  string (lines 60--65), the noise loop (lines 67--72).
\<close>

fun Ron_basis_loop :: "int list \<Rightarrow> nat list \<Rightarrow> circuit \<Rightarrow> py_error + circuit" where
  "Ron_basis_loop Ron_bases [] qc = Inr qc"
| "Ron_basis_loop Ron_bases (i # rest) qc =
     (case list_index Ron_bases i of
        Inl e \<Rightarrow> Inl e
      | Inr basis \<Rightarrow>
     (case (if basis = 1 then circuit_h qc i else Inr qc) of
        Inl e \<Rightarrow> Inl e
      | Inr qc' \<Rightarrow>
     (case circuit_measure qc' i i of
        Inl e \<Rightarrow> Inl e
      | Inr qc'' \<Rightarrow> Ron_basis_loop Ron_bases rest qc'')))"

definition Ron_measurement_circuit :: "circuit list \<Rightarrow> int list \<Rightarrow> py_error + circuit" where
  "Ron_measurement_circuit transmitted_circuits Ron_bases =
     (case list_index transmitted_circuits 0 of
        Inl e \<Rightarrow> Inl e
      | Inr qc \<Rightarrow> Ron_basis_loop Ron_bases [0..<num_qubits qc] qc)"

text \<open>\<open>int(c)\<close> for one character \<open>c\<close> of a string.\<close>

definition py_int :: "char \<Rightarrow> py_error + int" where
  "py_int c =
     (let k = (of_char c :: nat)
      in if 48 \<le> k \<and> k \<le> 57 then Inr (int k - 48)
         else Inl (ValueError (''invalid literal for int() with base 10: '' @ [CHR 0x27, c, CHR 0x27])))"

text \<open>\<open>[int(bit) for bit in s]\<close>.\<close>

fun ints_of_chars :: "string \<Rightarrow> py_error + int list" where
  "ints_of_chars [] = Inr []"
| "ints_of_chars (c # cs) =
     (case py_int c of
        Inl e \<Rightarrow> Inl e
      | Inr v \<Rightarrow>
     (case ints_of_chars cs of
        Inl e \<Rightarrow> Inl e
      | Inr vs \<Rightarrow> Inr (v # vs)))"

fun noise_loop :: "int list \<Rightarrow> real \<Rightarrow> real source \<Rightarrow> int list \<Rightarrow> int list \<times> real source" where
  "noise_loop [] noise_probability g noisy_results = (noisy_results, g)"
| "noise_loop (b # rest) noise_probability g noisy_results =
     (case draw g of (u, g') \<Rightarrow>
        if u < noise_probability
        then noise_loop rest noise_probability g' (noisy_results @ [1 - b])
        else noise_loop rest noise_probability g' (noisy_results @ [b]))"

definition Ron_measurement_multi_qubit_with_noise ::
  "channel \<Rightarrow> real source \<Rightarrow> circuit list \<Rightarrow> int list \<Rightarrow> real \<Rightarrow>
   py_error + (int list \<times> channel \<times> real source)" where
  "Ron_measurement_multi_qubit_with_noise ch g transmitted_circuits Ron_bases noise_probability =
     (case Ron_measurement_circuit transmitted_circuits Ron_bases of
        Inl e \<Rightarrow> Inl e
      | Inr qc \<Rightarrow>
     (case run_single_shot ch qc of (measured_str, ch') \<Rightarrow>
     (case ints_of_chars (rev measured_str) of
        Inl e \<Rightarrow> Inl e
      | Inr measured_bits \<Rightarrow>
     (case noise_loop measured_bits noise_probability g [] of (noisy_results, g') \<Rightarrow>
        Inr (noisy_results, ch', g')))))"

text \<open>
  The script's main part, lines 86--119, without the prints. The values read from the
  console are the arguments \<open>Sam_bits\<close>, \<open>Sam_bases\<close> and \<open>Ron_bases\<close>; \<open>noise_level\<close>,
  which line 88 sets to 0, is an argument too, so that other settings can be stated.
\<close>

definition bb84_main ::
  "channel \<Rightarrow> real source \<Rightarrow> real \<Rightarrow> int list \<Rightarrow> int list \<Rightarrow> int list \<Rightarrow>
   py_error + ((int list \<times> int list) \<times> channel \<times> real source)" where
  "bb84_main ch g noise_level Sam_bits Sam_bases Ron_bases =
     (case Sam_transmission_multi_qubit Sam_bits Sam_bases of
        Inl e \<Rightarrow> Inl e
      | Inr Sam_transmitted_circuits \<Rightarrow>
     (case Ron_measurement_multi_qubit_with_noise ch g Sam_transmitted_circuits Ron_bases
             noise_level of
        Inl e \<Rightarrow> Inl e
      | Inr (Ron_measured_results, ch', g') \<Rightarrow>
     (case basis_reconciliation Sam_bases Ron_bases Sam_bits Ron_measured_results of
        Inl e \<Rightarrow> Inl e
      | Inr shared_keys \<Rightarrow> Inr (shared_keys, ch', g'))))"

section \<open>E91 (\<open>e91.py\<close>)\<close>

text \<open>
  A Bell test sample is the pair of the two parties' (basis index, outcome) pairs, the
  outcome being the string \<open>'0'\<close> or \<open>'1'\<close>. \<open>evaluate_bell_statistic\<close>, lines 65--83: the
  loop collecting \<open>correlations\<close>, then the mean times the square root of 2. The numpy
  floating-point mean, square root and product are read as the real-number operations.
\<close>

type_synonym bell_sample = "(int \<times> string) \<times> (int \<times> string)"

fun correlations_loop :: "bell_sample list \<Rightarrow> int list \<Rightarrow> int list" where
  "correlations_loop [] correlations = correlations"
| "correlations_loop (((alice_basis_idx, alice_result), (bob_basis_idx, bob_result)) # rest)
     correlations =
     (let a_val = (if alice_result = ''0'' then 1 else - 1);
          b_val = (if bob_result = ''0'' then 1 else - 1)
      in if (alice_basis_idx = 0 \<and> bob_basis_idx = 1) \<or>
            (alice_basis_idx = 0 \<and> bob_basis_idx = 2) \<or>
            (alice_basis_idx = 1 \<and> bob_basis_idx = 2) \<or>
            (alice_basis_idx = 1 \<and> bob_basis_idx = 0) \<or>
            (alice_basis_idx = 2 \<and> bob_basis_idx = 0) \<or>
            (alice_basis_idx = 2 \<and> bob_basis_idx = 1)
         then correlations_loop rest (correlations @ [a_val * b_val])
         else correlations_loop rest correlations)"

definition np_mean :: "int list \<Rightarrow> real" where
  "np_mean xs = real_of_int (sum_list xs) / real (length xs)"

definition evaluate_bell_statistic :: "bell_sample list \<Rightarrow> real" where
  "evaluate_bell_statistic bell_data =
     (let correlations = correlations_loop bell_data []
      in if correlations \<noteq> [] then np_mean correlations * sqrt 2 else 0)"

text \<open>\<open>[random.randint(0, 1) for _ in range(k)]\<close>, line 146.\<close>

fun randint_list :: "nat \<Rightarrow> int source \<Rightarrow> int list \<times> int source" where
  "randint_list 0 g = ([], g)"
| "randint_list (Suc k) g =
     (case draw g of (b, g') \<Rightarrow>
      case randint_list k g' of (bs, g'') \<Rightarrow> (b # bs, g''))"

text \<open>
  Lines 141--150 of \<open>e91_protocol_qiskit_user_input\<close>: the decision on the value that
  line 138 has assigned to \<open>bell_statistic\<close>.
\<close>

definition key_decision ::
  "int source \<Rightarrow> bell_sample list \<Rightarrow> real \<Rightarrow> (int list \<times> int list) \<times> int source" where
  "key_decision g bell_test_data bell_statistic =
     (let bell_violation_threshold = 2
      in if \<bar>bell_statistic\<bar> > bell_violation_threshold then
           (case randint_list (length bell_test_data div 2) g of
              (hypothetical_key, g') \<Rightarrow> ((hypothetical_key, hypothetical_key), g'))
         else (([], []), g))"

text \<open>
  \<open>e91_protocol_qiskit_user_input\<close>, lines 119--150, from line 133 on: the samples read
  from the console are the argument, the prints are left out.
\<close>

definition e91_protocol_qiskit_user_input ::
  "int source \<Rightarrow> bell_sample list \<Rightarrow> (int list \<times> int list) \<times> int source" where
  "e91_protocol_qiskit_user_input g bell_test_data =
     (if bell_test_data = [] then (([], []), g)
      else
        (let bell_statistic = evaluate_bell_statistic bell_test_data
         in key_decision g bell_test_data bell_statistic))"

text \<open>
  Modelled from the spec: the contract of the Quantum Channel, which is an external
  simulator and not code of the repository ("returns one classical bit per qubit
  consistent with the protocol's quantum state"). It is stated for the circuits the
  BB84 script builds: the one-qubit gates H, X and Z on qubits that start in the basis
  state 0, every qubit measured into a classical bit of its own. Up to a global phase
  such a qubit is in one of four states, the two of the computational basis and the two
  of the diagonal basis, and the gates permute them. Measuring a computational-basis
  state returns its bit; measuring a diagonal-basis state may return either bit and
  leaves the qubit in the state read. The outcome string carries classical bit \<open>c\<close> at
  position \<open>c\<close> counted from its right end.
\<close>

datatype qstate = Ket0 | Ket1 | KetPlus | KetMinus

fun hadamard :: "qstate \<Rightarrow> qstate" where
  "hadamard Ket0 = KetPlus"
| "hadamard Ket1 = KetMinus"
| "hadamard KetPlus = Ket0"
| "hadamard KetMinus = Ket1"

fun pauli_x :: "qstate \<Rightarrow> qstate" where
  "pauli_x Ket0 = Ket1"
| "pauli_x Ket1 = Ket0"
| "pauli_x KetPlus = KetPlus"
| "pauli_x KetMinus = KetMinus"

fun pauli_z :: "qstate \<Rightarrow> qstate" where
  "pauli_z Ket0 = Ket0"
| "pauli_z Ket1 = Ket1"
| "pauli_z KetPlus = KetMinus"
| "pauli_z KetMinus = KetPlus"

fun outcome_allowed :: "qstate \<Rightarrow> char \<Rightarrow> bool" where
  "outcome_allowed Ket0 b = (b = CHR ''0'')"
| "outcome_allowed Ket1 b = (b = CHR ''1'')"
| "outcome_allowed KetPlus b = (b = CHR ''0'' \<or> b = CHR ''1'')"
| "outcome_allowed KetMinus b = (b = CHR ''0'' \<or> b = CHR ''1'')"

text \<open>
  Whether the outcome string \<open>s\<close> can be the single shot of the instruction list, run
  from the qubit states \<open>st\<close>.
\<close>

fun consistent_run :: "gate list \<Rightarrow> (nat \<Rightarrow> qstate) \<Rightarrow> string \<Rightarrow> bool" where
  "consistent_run [] st s = True"
| "consistent_run (H_gate q # gs) st s = consistent_run gs (st(q := hadamard (st q))) s"
| "consistent_run (X_gate q # gs) st s = consistent_run gs (st(q := pauli_x (st q))) s"
| "consistent_run (Z_gate q # gs) st s = consistent_run gs (st(q := pauli_z (st q))) s"
| "consistent_run (Measure q c # gs) st s =
     (c < length s \<and> outcome_allowed (st q) (rev s ! c) \<and>
      consistent_run gs (st(q := if rev s ! c = CHR ''0'' then Ket0 else Ket1)) s)"

definition consistent_outcome :: "circuit \<Rightarrow> string \<Rightarrow> bool" where
  "consistent_outcome qc s \<longleftrightarrow>
     length s = num_clbits qc \<and> set s \<subseteq> {CHR ''0'', CHR ''1''} \<and>
     consistent_run (instructions qc) (\<lambda>q. Ket0) s"

text \<open>
  The instructions one pass of the sender's loop body appends for a bit and a basis at
  qubit \<open>i\<close>, the state they take the qubit to, and the instructions one pass of the
  receiver's loop body appends; used to state what the two loops build.
\<close>

definition sam_gates :: "int \<Rightarrow> int \<Rightarrow> nat \<Rightarrow> gate list" where
  "sam_gates abit basis i =
     (if basis = 0 then (if abit = 1 then [X_gate i] else [])
      else (if abit = 0 then [H_gate i] else [H_gate i, Z_gate i]))"

definition sam_state :: "int \<Rightarrow> int \<Rightarrow> qstate \<Rightarrow> qstate" where
  "sam_state abit basis q =
     (if basis = 0 then (if abit = 1 then pauli_x q else q)
      else (if abit = 0 then hadamard q else pauli_z (hadamard q)))"

definition ron_gates :: "int \<Rightarrow> nat \<Rightarrow> gate list" where
  "ron_gates basis i = (if basis = 1 then [H_gate i] else []) @ [Measure i i]"

text \<open>
  The Encoding Rule in the specification's words: bit \<open>'1'\<close> cannot pair with basis 0 and
  bit \<open>'0'\<close> cannot pair with basis 1. It is used to state the claims about the encoder,
  not to define it.
\<close>

definition pairing_violation :: "string \<Rightarrow> int \<Rightarrow> bool" where
  "pairing_violation abit basis \<longleftrightarrow> (abit = ''1'' \<and> basis = 0) \<or> (abit = ''0'' \<and> basis = 1)"

text \<open>
  The gates a valid run of the encoder's loop appends, position by position, starting at
  loop index \<open>i\<close>: a Hadamard on every basis-1 position and nothing on a basis-0 one.
\<close>

fun basis_gates :: "nat \<Rightarrow> int list \<Rightarrow> gate list" where
  "basis_gates i [] = []"
| "basis_gates i (basis # rest) = (if basis = 1 then [H_gate i] else []) @ basis_gates (Suc i) rest"

section \<open>Properties of basis reconciliation\<close>

lemma reconcile_loop_in_range:
  assumes "\<forall>i \<in> set idxs. i < length Sam_bases \<and> i < length Ron_bases \<and>
             i < length Sam_bits \<and> i < length Ron_results"
  shows "reconcile_loop Sam_bases Ron_bases Sam_bits Ron_results idxs (kS, kR) =
           Inr (kS @ map (\<lambda>i. Sam_bits ! i) (filter (\<lambda>i. Sam_bases ! i = Ron_bases ! i) idxs),
                kR @ map (\<lambda>i. Ron_results ! i) (filter (\<lambda>i. Sam_bases ! i = Ron_bases ! i) idxs))"
  using assms
proof (induction idxs arbitrary: kS kR)
  case Nil
  show ?case by simp
next
  case (Cons i rest)
  then show ?case by (simp add: list_index_def)
qed

lemma reconcile_loop_error_kind:
  "reconcile_loop Sam_bases Ron_bases Sam_bits Ron_results idxs acc = Inl e \<Longrightarrow> e = IndexError"
proof (induction idxs arbitrary: acc)
  case Nil
  then show ?case by simp
next
  case (Cons i rest)
  obtain kS kR where acc: "acc = (kS, kR)" by (cases acc)
  from Cons.prems show ?case
    unfolding acc
    by (auto simp: list_index_def split: if_splits dest: Cons.IH)
qed

lemma reconcile_loop_short_receiver:
  assumes "\<exists>i \<in> set idxs. length Ron_bases \<le> i"
  shows "\<exists>e. reconcile_loop Sam_bases Ron_bases Sam_bits Ron_results idxs acc = Inl e"
  using assms
proof (induction idxs arbitrary: acc)
  case Nil
  then show ?case by simp
next
  case (Cons i rest)
  obtain kS kR where acc: "acc = (kS, kR)" by (cases acc)
  show ?case
  proof (cases "length Ron_bases \<le> i")
    case True
    then show ?thesis
      unfolding acc by (simp add: list_index_def)
  next
    case False
    with Cons.prems have "\<exists>j \<in> set rest. length Ron_bases \<le> j" by auto
    then show ?thesis
      unfolding acc using Cons.IH by (simp add: list_index_def)
  qed
qed

text \<open>
  Claim C2. When the four sequences have the same length, reconciliation returns the
  pair of subsequences of the sender's values and of the receiver's values taken, in
  increasing index order, at exactly the positions where the two basis sequences agree;
  the two outputs have the same length. The result is a function of the four arguments
  alone: the embedding has no other input and no state.
\<close>

theorem basis_reconciliation_subsequences:
  assumes "length Ron_bases = length Sam_bases"
    and "length Sam_bits = length Sam_bases"
    and "length Ron_results = length Sam_bases"
  shows "basis_reconciliation Sam_bases Ron_bases Sam_bits Ron_results =
           Inr (map (\<lambda>i. Sam_bits ! i)
                  (filter (\<lambda>i. Sam_bases ! i = Ron_bases ! i) [0..<length Sam_bases]),
                map (\<lambda>i. Ron_results ! i)
                  (filter (\<lambda>i. Sam_bases ! i = Ron_bases ! i) [0..<length Sam_bases]))
         \<and> (\<forall>kS kR. basis_reconciliation Sam_bases Ron_bases Sam_bits Ron_results = Inr (kS, kR)
              \<longrightarrow> length kS = length kR)"
proof -
  have "\<forall>i \<in> set [0..<length Sam_bases]. i < length Sam_bases \<and> i < length Ron_bases \<and>
          i < length Sam_bits \<and> i < length Ron_results"
    using assms by simp
  from reconcile_loop_in_range [OF this, of "[]" "[]"]
  show ?thesis by (auto simp: basis_reconciliation_def)
qed

theorem basis_reconciliation_subsequences_witness:
  "basis_reconciliation [0, 1, 0, 1] [0, 0, 0, 1] [1, 0, 1, 1] [1, 1, 1, 1] = Inr ([1, 1, 1], [1, 1, 1])"
  using basis_reconciliation_subsequences [of "[0, 0, 0, 1]" "[0, 1, 0, 1]" "[1, 0, 1, 1]" "[1, 1, 1, 1]"]
  by (simp add: upt_rec)

text \<open>
  Claim C6, as stated, fails: the function has no length check. Here the four sequences
  have lengths 1, 2, 2, 2 and a result is returned.
\<close>

theorem basis_reconciliation_misaligned_counterexample:
  "basis_reconciliation [0] [0, 1] [1, 0] [1, 1] = Inr ([1], [1])"
  by (simp add: basis_reconciliation_def list_index_def)

text \<open>
  Claim C6, amended. Reconciliation iterates over the positions of the sender's basis
  sequence and checks no lengths. When the sender's basis sequence is no longer than
  each of the other three, the call returns the subsequences over the sender's basis
  positions and ignores the surplus elements; when the receiver's basis sequence is
  shorter than the sender's, the call fails with the subscript error \<open>IndexError\<close>.
\<close>

theorem basis_reconciliation_unchecked_lengths:
  "(length Sam_bases \<le> length Ron_bases \<and> length Sam_bases \<le> length Sam_bits \<and>
    length Sam_bases \<le> length Ron_results \<longrightarrow>
      basis_reconciliation Sam_bases Ron_bases Sam_bits Ron_results =
        Inr (map (\<lambda>i. Sam_bits ! i)
               (filter (\<lambda>i. Sam_bases ! i = Ron_bases ! i) [0..<length Sam_bases]),
             map (\<lambda>i. Ron_results ! i)
               (filter (\<lambda>i. Sam_bases ! i = Ron_bases ! i) [0..<length Sam_bases])))
   \<and> (length Ron_bases < length Sam_bases \<longrightarrow>
        basis_reconciliation Sam_bases Ron_bases Sam_bits Ron_results = Inl IndexError)"
proof (intro conjI impI)
  assume le: "length Sam_bases \<le> length Ron_bases \<and> length Sam_bases \<le> length Sam_bits \<and>
    length Sam_bases \<le> length Ron_results"
  then have "\<forall>i \<in> set [0..<length Sam_bases]. i < length Sam_bases \<and> i < length Ron_bases \<and>
          i < length Sam_bits \<and> i < length Ron_results"
    by auto
  from reconcile_loop_in_range [OF this, of "[]" "[]"]
  show "basis_reconciliation Sam_bases Ron_bases Sam_bits Ron_results =
        Inr (map (\<lambda>i. Sam_bits ! i)
               (filter (\<lambda>i. Sam_bases ! i = Ron_bases ! i) [0..<length Sam_bases]),
             map (\<lambda>i. Ron_results ! i)
               (filter (\<lambda>i. Sam_bases ! i = Ron_bases ! i) [0..<length Sam_bases]))"
    by (simp add: basis_reconciliation_def)
next
  assume short: "length Ron_bases < length Sam_bases"
  then have "\<exists>i \<in> set [0..<length Sam_bases]. length Ron_bases \<le> i"
    by (intro bexI [of _ "length Ron_bases"]) simp_all
  from reconcile_loop_short_receiver [OF this]
  obtain e where e: "reconcile_loop Sam_bases Ron_bases Sam_bits Ron_results
                       [0..<length Sam_bases] ([], []) = Inl e"
    by blast
  then have "e = IndexError" by (rule reconcile_loop_error_kind)
  with e show "basis_reconciliation Sam_bases Ron_bases Sam_bits Ron_results = Inl IndexError"
    by (simp add: basis_reconciliation_def)
qed

theorem basis_reconciliation_unchecked_lengths_witness:
  "basis_reconciliation [0, 1] [0, 1, 1] [1, 0, 1] [1, 1, 0, 0] = Inr ([1, 0], [1, 1])
   \<and> basis_reconciliation [0, 1] [0] [1, 0] [1, 1] = Inl IndexError"
  using basis_reconciliation_unchecked_lengths [of "[0, 1]" "[0, 1, 1]" "[1, 0, 1]" "[1, 1, 0, 0]"]
    basis_reconciliation_unchecked_lengths [of "[0, 1]" "[0]" "[1, 0]" "[1, 1]"]
  by (simp add: upt_rec)

section \<open>Properties of B92\<close>


lemma sift_loop_in_range:
  assumes "\<forall>i \<in> set idxs. i < length S \<and> i < length B \<and> i < length M"
  shows "sift_loop S B M idxs (bits, cidx) =
     Inr (bits @ map (\<lambda>i. if S ! i = ''H'' \<and> B ! i = 1 \<and> M ! i = CHR ''1'' then ''0'' else ''1'')
            (filter (\<lambda>i. (S ! i = ''H'' \<and> B ! i = 1 \<and> M ! i = CHR ''1'') \<or>
                          (S ! i = ''+'' \<and> B ! i = 0 \<and> M ! i = CHR ''1'')) idxs),
          cidx @ filter (\<lambda>i. (S ! i = ''H'' \<and> B ! i = 1 \<and> M ! i = CHR ''1'') \<or>
                          (S ! i = ''+'' \<and> B ! i = 0 \<and> M ! i = CHR ''1'')) idxs)"
  using assms
proof (induction idxs arbitrary: bits cidx)
  case Nil
  show ?case by simp
next
  case (Cons i rest)
  then show ?case by (simp add: list_index_def str_index_def)
qed

lemma sent_states_loop_valid:
  "set bases \<subseteq> {0, 1} \<Longrightarrow>
   sent_states_loop bases acc = Inr (acc @ map (\<lambda>b. if b = 0 then ''H'' else ''+'') bases)"
  by (induction bases arbitrary: acc) auto

lemma encode_loop_sizes:
  "encode_loop i zs qc = Inr qc' \<Longrightarrow> num_qubits qc' = num_qubits qc \<and> num_clbits qc' = num_clbits qc"
proof (induction i zs qc rule: encode_loop.induct)
  case (1 i qc)
  then show ?case by simp
next
  case (2 i abit basis rest qc)
  then show ?case
    by (auto simp: circuit_h_def apply_gate_def split: if_splits sum.splits)
qed

lemma encode_loop_success_valid:
  "encode_loop i zs qc = Inr qc' \<Longrightarrow> \<forall>(abit, basis) \<in> set zs. \<not> pairing_violation abit basis"
proof (induction i zs qc rule: encode_loop.induct)
  case (1 i qc)
  then show ?case by simp
next
  case (2 i abit basis rest qc)
  then show ?case
    by (auto simp: pairing_violation_def split: if_splits sum.splits)
qed

lemma encode_loop_valid:
  assumes "\<forall>(abit, basis) \<in> set zs. \<not> pairing_violation abit basis \<and> basis \<in> {0, 1}"
    and "i + length zs \<le> num_qubits qc"
  shows "encode_loop i zs qc = Inr (qc\<lparr>instructions := instructions qc @ basis_gates i (map snd zs)\<rparr>)"
  using assms
proof (induction i zs qc rule: encode_loop.induct)
  case (1 i qc)
  then show ?case by simp
next
  case (2 i abit basis rest qc)
  then show ?case
    by (auto simp: pairing_violation_def circuit_h_def apply_gate_def)
qed

lemma basis_gates_filter:
  "basis_gates i bases = map H_gate (filter (\<lambda>k. bases ! (k - i) = 1) [i..<i + length bases])"
proof (induction bases arbitrary: i)
  case Nil
  show ?case by simp
next
  case (Cons basis rest)
  have "filter (\<lambda>k. (basis # rest) ! (k - i) = 1) [Suc i..<Suc i + length rest]
        = filter (\<lambda>k. rest ! (k - Suc i) = 1) [Suc i..<Suc i + length rest]"
  proof (rule filter_cong)
    fix k assume "k \<in> set [Suc i..<Suc i + length rest]"
    then have "k - i = Suc (k - Suc i)" by auto
    then show "((basis # rest) ! (k - i) = 1) = (rest ! (k - Suc i) = 1)" by simp
  qed simp
  then have tl: "map H_gate (filter (\<lambda>k. (basis # rest) ! (k - i) = 1) [Suc i..<Suc i + length rest])
        = basis_gates (Suc i) rest"
    using Cons.IH [of "Suc i"] by simp
  have len: "i + length (basis # rest) = Suc i + length rest" by simp
  have upt: "[i..<i + length (basis # rest)] = i # [Suc i..<Suc i + length rest]"
    unfolding len by (rule upt_conv_Cons) simp
  show ?case
    unfolding upt using tl by (auto simp del: upt_Suc)
qed

lemma encode_loop_first_violation:
  assumes "k < length zs"
    and "pairing_violation (fst (zs ! k)) (snd (zs ! k))"
    and "\<forall>j<k. \<not> pairing_violation (fst (zs ! j)) (snd (zs ! j))"
    and "\<forall>j<k. snd (zs ! j) \<in> {0, 1}"
    and "i + length zs \<le> num_qubits qc"
  shows "encode_loop i zs qc =
           Inl (ValueError (if snd (zs ! k) = 0
                            then ''Inconsistent input: bit '1' with basis '0' in B92''
                            else ''Inconsistent input: bit '0' with basis '1' in B92''))"
  using assms
proof (induction i zs qc arbitrary: k rule: encode_loop.induct)
  case (1 i qc)
  then show ?case by simp
next
  case (2 i abit basis rest qc)
  show ?case
  proof (cases k)
    case 0
    with "2.prems" show ?thesis by (auto simp: pairing_violation_def)
  next
    case (Suc k')
    from "2.prems" Suc have here: "\<not> pairing_violation abit basis" "basis \<in> {0, 1}"
      by force+
    have k': "k' < length rest" using "2.prems" Suc by simp
    have viol: "pairing_violation (fst (rest ! k')) (snd (rest ! k'))"
      using "2.prems" Suc by simp
    have before: "\<forall>j<k'. \<not> pairing_violation (fst (rest ! j)) (snd (rest ! j))"
      "\<forall>j<k'. snd (rest ! j) \<in> {0, 1}"
      using "2.prems"(3,4) Suc by fastforce+
    show ?thesis
    proof (cases "basis = 0")
      case True
      with here have "abit \<noteq> ''1''" by (simp add: pairing_violation_def)
      with True "2.IH"(1) [OF True _ k' viol before] "2.prems"(5) Suc show ?thesis
        by simp
    next
      case False
      with here have b1: "basis = 1" and nz: "abit \<noteq> ''0''"
        by (auto simp: pairing_violation_def)
      have h: "circuit_h qc i = Inr (apply_gate qc (H_gate i))"
        using "2.prems"(5) by (simp add: circuit_h_def)
      have "Suc i + length rest \<le> num_qubits (apply_gate qc (H_gate i))"
        using "2.prems"(5) by (simp add: apply_gate_def)
      from "2.IH"(2) [OF False b1 nz h k' viol before this] False b1 nz h Suc
      show ?thesis by simp
    qed
  qed
qed


lemma apply_gate_sizes:
  "num_qubits (apply_gate qc g) = num_qubits qc" "num_clbits (apply_gate qc g) = num_clbits qc"
  by (simp_all add: apply_gate_def)

lemma measure_loop_ok:
  assumes "set bases \<subseteq> {0, 1}"
    and "i + length bases \<le> num_qubits meas"
    and "i + length bases \<le> num_clbits meas"
  shows "\<exists>m. measure_loop i bases meas = Inr m \<and> num_qubits m = num_qubits meas \<and>
             num_clbits m = num_clbits meas"
  using assms
proof (induction bases arbitrary: i meas)
  case Nil
  show ?case by simp
next
  case (Cons basis rest)
  have rest: "set rest \<subseteq> {0, 1}" and i: "i < num_qubits meas" "i < num_clbits meas"
    using Cons.prems by auto
  show ?case
  proof (cases "basis = 0")
    case True
    let ?m = "apply_gate meas (Measure i i)"
    have "Suc i + length rest \<le> num_qubits ?m" "Suc i + length rest \<le> num_clbits ?m"
      using Cons.prems by (simp_all add: apply_gate_sizes)
    from Cons.IH [OF rest this] True i show ?thesis
      by (simp add: circuit_measure_def apply_gate_sizes)
  next
    case False
    with Cons.prems have b1: "basis = 1" by auto
    let ?m = "apply_gate (apply_gate meas (H_gate i)) (Measure i i)"
    have "Suc i + length rest \<le> num_qubits ?m" "Suc i + length rest \<le> num_clbits ?m"
      using Cons.prems by (simp_all add: apply_gate_sizes)
    from Cons.IH [OF rest this] b1 i show ?thesis
      by (simp add: circuit_measure_def circuit_h_def apply_gate_sizes)
  qed
qed

lemma agreed_key_in_range:
  "\<forall>i \<in> set idxs. i < length alice_bits \<Longrightarrow>
   agreed_key alice_bits idxs = Inr (map (\<lambda>i. alice_bits ! i) idxs)"
  by (induction idxs) (auto simp: list_index_def)

lemma measure_b92_ok:
  assumes "set bases \<subseteq> {0, 1}" and "length bases = n"
    and "num_qubits circ = n" and "num_clbits circ = n"
  shows "\<exists>combined. measure_b92 ch circ n bases = Inr (run_single_shot ch combined) \<and>
           num_clbits combined = n"
proof -
  from measure_loop_ok [of bases 0 "QuantumCircuit n n"] assms
  obtain m where m: "measure_loop 0 bases (QuantumCircuit n n) = Inr m"
    "num_qubits m = n" "num_clbits m = n"
    by (auto simp: QuantumCircuit_def)
  with assms show ?thesis
    by (auto simp: measure_b92_def compose_def
        intro!: exI [of _ "circ\<lparr>instructions := instructions circ @ instructions m\<rparr>"])
qed

text \<open>
  Claim C1. For aligned sequences of sent-state labels, receiver bases and raw outcome
  characters, the sifting loop keeps position \<open>i\<close> exactly when the triple there is
  (\<open>'H'\<close>, 1, \<open>'1'\<close>), contributing the receiver key bit \<open>'0'\<close>, or (\<open>'+'\<close>, 0, \<open>'1'\<close>),
  contributing \<open>'1'\<close>; every other position is dropped, and the list of conclusive
  indices is the list of kept positions in increasing order.
\<close>

theorem b92_sifting_conclusive_patterns:
  assumes "length alice_sent_states = num_bits"
    and "length bob_measurement_bases = num_bits"
    and "length bob_measurements = num_bits"
  shows "sift_loop alice_sent_states bob_measurement_bases bob_measurements [0..<num_bits] ([], []) =
     Inr (map (\<lambda>i. if alice_sent_states ! i = ''H'' \<and> bob_measurement_bases ! i = 1 \<and>
                       bob_measurements ! i = CHR ''1'' then ''0'' else ''1'')
            (filter (\<lambda>i. (alice_sent_states ! i = ''H'' \<and> bob_measurement_bases ! i = 1 \<and>
                           bob_measurements ! i = CHR ''1'') \<or>
                          (alice_sent_states ! i = ''+'' \<and> bob_measurement_bases ! i = 0 \<and>
                           bob_measurements ! i = CHR ''1'')) [0..<num_bits]),
          filter (\<lambda>i. (alice_sent_states ! i = ''H'' \<and> bob_measurement_bases ! i = 1 \<and>
                           bob_measurements ! i = CHR ''1'') \<or>
                          (alice_sent_states ! i = ''+'' \<and> bob_measurement_bases ! i = 0 \<and>
                           bob_measurements ! i = CHR ''1'')) [0..<num_bits])"
proof -
  have "\<forall>i \<in> set [0..<num_bits]. i < length alice_sent_states \<and>
          i < length bob_measurement_bases \<and> i < length bob_measurements"
    using assms by simp
  from sift_loop_in_range [OF this, of "[]" "[]"] show ?thesis by simp
qed

theorem b92_sifting_conclusive_patterns_witness:
  "sift_loop [''H'', ''+'', ''H'', ''+''] [1, 0, 0, 0] ''1110'' [0..<4] ([], []) =
     Inr ([''0'', ''1''], [0, 1])"
  using b92_sifting_conclusive_patterns [of "[''H'', ''+'', ''H'', ''+'']" 4 "[1, 0, 0, 0]" "''1110''"]
  by (simp add: upt_rec)

text \<open>
  Claim C5, as stated, fails in one point: the error does not identify the offending
  index. The encoder raises \<open>ValueError\<close> with a fixed message for each kind of
  violation; a violation at index 0 and one at index 1 give the same error value.
\<close>

theorem b92_encode_error_omits_index_counterexample:
  "encode_b92_with_alice_basis [''1'', ''0''] [0, 0] =
     Inl (ValueError ''Inconsistent input: bit '1' with basis '0' in B92'')
   \<and> encode_b92_with_alice_basis [''0'', ''1''] [0, 0] =
     Inl (ValueError ''Inconsistent input: bit '1' with basis '0' in B92'')"
  by (simp add: encode_b92_with_alice_basis_def)

text \<open>
  Claim C5, amended. For aligned bits and bases over \<open>{0, 1}\<close>: if \<open>k\<close> is the first
  position violating the pairing rule, the encoder fails with the \<open>ValueError\<close> whose
  message names the violated pairing at \<open>k\<close> (bit \<open>'1'\<close> with basis 0, or bit \<open>'0'\<close> with
  basis 1) and carries no index, and the protocol returns two empty keys with the channel
  untouched: no request has been made. If no position violates the rule, the encoder
  does not raise and returns the circuit over \<open>n\<close> qubits with one Hadamard on each
  basis-1 position, in position order, and nothing on the basis-0 positions.
\<close>

theorem b92_encode_validation:
  assumes "length alice_bits = length alice_bases" and "set alice_bases \<subseteq> {0, 1}"
  shows "(\<forall>k < length alice_bases.
            pairing_violation (alice_bits ! k) (alice_bases ! k) \<and>
            (\<forall>j<k. \<not> pairing_violation (alice_bits ! j) (alice_bases ! j)) \<longrightarrow>
              encode_b92_with_alice_basis alice_bits alice_bases =
                Inl (ValueError (if alice_bases ! k = 0
                                 then ''Inconsistent input: bit '1' with basis '0' in B92''
                                 else ''Inconsistent input: bit '0' with basis '1' in B92'')) \<and>
              b92_protocol ch num_bits alice_bases alice_bits bob_measurement_bases =
                Inr (([], []), ch))
       \<and> ((\<forall>k < length alice_bases. \<not> pairing_violation (alice_bits ! k) (alice_bases ! k)) \<longrightarrow>
            encode_b92_with_alice_basis alice_bits alice_bases =
              Inr \<lparr>num_qubits = length alice_bits, num_clbits = length alice_bits,
                   instructions = map H_gate (filter (\<lambda>k. alice_bases ! k = 1) [0..<length alice_bases])\<rparr>)"
proof (intro conjI allI impI)
  fix k
  assume k: "k < length alice_bases"
    and v: "pairing_violation (alice_bits ! k) (alice_bases ! k) \<and>
            (\<forall>j<k. \<not> pairing_violation (alice_bits ! j) (alice_bases ! j))"
  let ?zs = "zip alice_bits alice_bases"
  have kz: "k < length ?zs" using k assms(1) by simp
  have v1: "pairing_violation (fst (?zs ! k)) (snd (?zs ! k))"
    using v k assms(1) by simp
  have v2: "\<forall>j<k. \<not> pairing_violation (fst (?zs ! j)) (snd (?zs ! j))"
    using v k assms(1) by simp
  have v3: "\<forall>j<k. snd (?zs ! j) \<in> {0, 1}"
    using k assms by (auto simp: subset_iff)
  have sz: "0 + length ?zs \<le> num_qubits (QuantumCircuit (length alice_bits) (length alice_bits))"
    by (simp add: QuantumCircuit_def)
  from encode_loop_first_violation [OF kz v1 v2 v3 sz]
  have enc: "encode_b92_with_alice_basis alice_bits alice_bases =
      Inl (ValueError (if alice_bases ! k = 0
                                 then ''Inconsistent input: bit '1' with basis '0' in B92''
                                 else ''Inconsistent input: bit '0' with basis '1' in B92''))"
    using k assms(1) by (simp add: encode_b92_with_alice_basis_def)
  then show "encode_b92_with_alice_basis alice_bits alice_bases =
      Inl (ValueError (if alice_bases ! k = 0
                                 then ''Inconsistent input: bit '1' with basis '0' in B92''
                                 else ''Inconsistent input: bit '0' with basis '1' in B92''))" .
  show "b92_protocol ch num_bits alice_bases alice_bits bob_measurement_bases = Inr (([], []), ch)"
    unfolding b92_protocol_def sent_states_loop_valid [OF assms(2)] enc by simp
next
  assume ok: "\<forall>k < length alice_bases. \<not> pairing_violation (alice_bits ! k) (alice_bases ! k)"
  let ?zs = "zip alice_bits alice_bases"
  have inb: "\<And>i. i < length alice_bases \<Longrightarrow> alice_bases ! i \<in> {0, 1}"
    using assms(2) nth_mem by blast
  have a: "\<forall>(abit, basis) \<in> set ?zs. \<not> pairing_violation abit basis \<and> basis \<in> {0, 1}"
    using ok assms(1) inb by (auto simp: set_zip)
  have sz: "0 + length ?zs \<le> num_qubits (QuantumCircuit (length alice_bits) (length alice_bits))"
    by (simp add: QuantumCircuit_def)
  from encode_loop_valid [OF a sz] basis_gates_filter [of 0 alice_bases] assms(1)
  show "encode_b92_with_alice_basis alice_bits alice_bases =
              Inr \<lparr>num_qubits = length alice_bits, num_clbits = length alice_bits,
                   instructions = map H_gate (filter (\<lambda>k. alice_bases ! k = 1) [0..<length alice_bases])\<rparr>"
    by (simp add: encode_b92_with_alice_basis_def QuantumCircuit_def)
qed


theorem b92_encode_validation_witness:
  "encode_b92_with_alice_basis [''0'', ''0'', ''1''] [0, 1, 0] =
     Inl (ValueError ''Inconsistent input: bit '0' with basis '1' in B92'')
   \<and> b92_protocol \<lparr>respond = (\<lambda>qc. replicate (num_clbits qc) CHR ''1''), requests = []\<rparr>
         3 [0, 1, 0] [''0'', ''0'', ''1''] [1, 0, 1] =
       Inr (([], []), \<lparr>respond = (\<lambda>qc. replicate (num_clbits qc) CHR ''1''), requests = []\<rparr>)
   \<and> encode_b92_with_alice_basis [''0'', ''1'', ''1''] [0, 1, 1] =
       Inr \<lparr>num_qubits = 3, num_clbits = 3, instructions = [H_gate 1, H_gate 2]\<rparr>"
proof -
  have l: "length [''0'', ''0'', ''1''] = length [0, 1, 0 :: int]" by simp
  have b: "set [0, 1, 0 :: int] \<subseteq> {0, 1}" by simp
  have l': "length [''0'', ''1'', ''1''] = length [0, 1, 1 :: int]" by simp
  have b': "set [0, 1, 1 :: int] \<subseteq> {0, 1}" by simp
  have first: "pairing_violation ([''0'', ''0'', ''1''] ! 1) ([0, 1, 0] ! 1) \<and>
      (\<forall>j<1. \<not> pairing_violation ([''0'', ''0'', ''1''] ! j) ([0, 1, 0] ! j))"
    by (simp add: pairing_violation_def)
  have valid: "\<forall>k < length [0, 1, 1 :: int].
      \<not> pairing_violation ([''0'', ''1'', ''1''] ! k) ([0, 1, 1] ! k)"
    by (simp add: pairing_violation_def less_Suc_eq)
  from b92_encode_validation [OF l b, THEN conjunct1, THEN spec [where x = 1], THEN mp, THEN mp, OF _ first]
    b92_encode_validation [OF l' b', THEN conjunct2, THEN mp, OF valid]
  show ?thesis by (simp add: upt_rec)
qed

text \<open>
  Claim C9. For console-validated input (three sequences of the run's length, bases over
  \<open>{0, 1}\<close>, bits over \<open>'0'\<close>, \<open>'1'\<close>) on which the encoder succeeds, and for every channel
  that answers with one character per classical bit, whatever the characters are, the
  protocol returns the same string as the sender's and as the receiver's sifted key.
\<close>

theorem b92_sifted_keys_agree:
  assumes "length alice_bases = num_bits"
    and "length alice_bits = num_bits"
    and "length bob_measurement_bases = num_bits"
    and "set alice_bases \<subseteq> {0, 1}"
    and "set alice_bits \<subseteq> {''0'', ''1''}"
    and "set bob_measurement_bases \<subseteq> {0, 1}"
    and "\<forall>qc. length (respond ch qc) = num_clbits qc"
    and "encode_b92_with_alice_basis alice_bits alice_bases = Inr quantum_channel"
  shows "\<exists>key ch'. b92_protocol ch num_bits alice_bases alice_bits bob_measurement_bases =
           Inr ((key, key), ch')"
proof -
  let ?S = "map (\<lambda>b. if b = 0 then ''H'' else ''+'') alice_bases"
  have states: "sent_states_loop alice_bases [] = Inr ?S"
    using sent_states_loop_valid [OF assms(4), of "[]"] by simp
  have sizes: "num_qubits quantum_channel = num_bits" "num_clbits quantum_channel = num_bits"
    using encode_loop_sizes [of 0 "zip alice_bits alice_bases"
        "QuantumCircuit (length alice_bits) (length alice_bits)" quantum_channel] assms(2,8)
    by (simp_all add: encode_b92_with_alice_basis_def QuantumCircuit_def)
  have novio: "\<And>i. i < num_bits \<Longrightarrow> \<not> pairing_violation (alice_bits ! i) (alice_bases ! i)"
  proof -
    fix i assume i: "i < num_bits"
    then have "(alice_bits ! i, alice_bases ! i) \<in> set (zip alice_bits alice_bases)"
      using assms(1,2) by (auto simp: set_zip)
    with encode_loop_success_valid [of 0 "zip alice_bits alice_bases" _ quantum_channel] assms(8)
    show "\<not> pairing_violation (alice_bits ! i) (alice_bases ! i)"
      by (auto simp: encode_b92_with_alice_basis_def)
  qed
  from measure_b92_ok [OF assms(6) assms(3) sizes, of ch]
  obtain combined where meas: "measure_b92 ch quantum_channel num_bits bob_measurement_bases =
      Inr (run_single_shot ch combined)" and cl: "num_clbits combined = num_bits"
    by blast
  let ?M = "respond ch combined"
  let ?ch' = "ch\<lparr>requests := requests ch @ [combined]\<rparr>"
  have run: "run_single_shot ch combined = (?M, ?ch')"
    by (simp add: run_single_shot_def)
  have lenM: "length ?M = num_bits" using assms(7) cl by simp
  let ?C = "\<lambda>i. (?S ! i = ''H'' \<and> bob_measurement_bases ! i = 1 \<and> ?M ! i = CHR ''1'') \<or>
                 (?S ! i = ''+'' \<and> bob_measurement_bases ! i = 0 \<and> ?M ! i = CHR ''1'')"
  let ?f = "\<lambda>i. if ?S ! i = ''H'' \<and> bob_measurement_bases ! i = 1 \<and> ?M ! i = CHR ''1''
                 then ''0'' else ''1''"
  let ?idx = "filter ?C [0..<num_bits]"
  have "\<forall>i \<in> set [0..<num_bits]. i < length ?S \<and> i < length bob_measurement_bases \<and> i < length ?M"
    using assms(1,3) lenM by simp
  from sift_loop_in_range [OF this, of "[]" "[]"]
  have sift: "sift_loop ?S bob_measurement_bases ?M [0..<num_bits] ([], []) = Inr (map ?f ?idx, ?idx)"
    by simp
  have "\<forall>i \<in> set ?idx. i < length alice_bits" using assms(2) by simp
  then have agreed: "agreed_key alice_bits ?idx = Inr (map (\<lambda>i. alice_bits ! i) ?idx)"
    by (rule agreed_key_in_range)
  have same: "map (\<lambda>i. alice_bits ! i) ?idx = map ?f ?idx"
  proof (rule map_cong [OF refl])
    fix i assume "i \<in> set ?idx"
    then have i: "i < num_bits" and c: "?C i" by simp_all
    have "alice_bits ! i \<in> {''0'', ''1''}"
      using assms(2,5) i nth_mem by blast
    then have bit: "alice_bits ! i = ''0'' \<or> alice_bits ! i = ''1''" by blast
    have "alice_bases ! i \<in> {0, 1}"
      using assms(1,4) i nth_mem by blast
    then have basis: "alice_bases ! i = 0 \<or> alice_bases ! i = 1" by blast
    have Si: "?S ! i = (if alice_bases ! i = 0 then ''H'' else ''+'')"
      using i assms(1) by simp
    from novio [OF i] bit basis c Si show "alice_bits ! i = ?f i"
      by (auto simp: pairing_violation_def split: if_splits)
  qed
  have "b92_protocol ch num_bits alice_bases alice_bits bob_measurement_bases =
          Inr ((concat (map ?f ?idx), concat (map ?f ?idx)), ?ch')"
    by (simp add: b92_protocol_def states assms(8) meas run sift agreed same)
  then show ?thesis by blast
qed

theorem b92_sifted_keys_agree_witness:
  "\<exists>key ch'. b92_protocol \<lparr>respond = (\<lambda>qc. replicate (num_clbits qc) CHR ''1''), requests = []\<rparr>
       2 [0, 1] [''0'', ''1''] [1, 0] = Inr ((key, key), ch')"
proof -
  have enc: "encode_b92_with_alice_basis [''0'', ''1''] [0, 1] =
      Inr \<lparr>num_qubits = 2, num_clbits = 2, instructions = [H_gate 1]\<rparr>"
    by (simp add: encode_b92_with_alice_basis_def QuantumCircuit_def circuit_h_def apply_gate_def)
  show ?thesis
    by (rule b92_sifted_keys_agree [OF _ _ _ _ _ _ _ enc]) simp_all
qed

section \<open>Properties of E91\<close>


lemma correlations_loop_filter:
  "correlations_loop bell_data acc =
     acc @ map (\<lambda>((a, ra), (b, rb)). (if ra = ''0'' then 1 else - 1) * (if rb = ''0'' then 1 else - 1))
             (filter (\<lambda>((a, ra), (b, rb)). a \<in> {0, 1, 2} \<and> b \<in> {0, 1, 2} \<and> a \<noteq> b) bell_data)"
  by (induction bell_data acc rule: correlations_loop.induct) (auto simp: Let_def)

lemma correlations_loop_unit:
  "\<forall>c \<in> set acc. \<bar>c\<bar> \<le> 1 \<Longrightarrow> \<forall>c \<in> set (correlations_loop bell_data acc). \<bar>c\<bar> \<le> 1"
  by (induction bell_data acc rule: correlations_loop.induct) (auto simp: Let_def)

lemma abs_sum_list_le:
  "\<forall>c \<in> set cs. \<bar>c\<bar> \<le> (1::int) \<Longrightarrow> \<bar>sum_list cs\<bar> \<le> int (length cs)"
  by (induction cs) auto

lemma np_mean_unit:
  assumes "\<forall>c \<in> set cs. \<bar>c\<bar> \<le> 1" and "cs \<noteq> []"
  shows "\<bar>np_mean cs\<bar> \<le> 1"
proof -
  have "\<bar>real_of_int (sum_list cs)\<bar> \<le> real (length cs)"
    using abs_sum_list_le [OF assms(1)] by linarith
  moreover have "0 < real (length cs)" using assms(2) by simp
  ultimately show ?thesis
    by (simp add: np_mean_def abs_divide)
qed

lemma bell_statistic_bounded: "\<bar>evaluate_bell_statistic bell_data\<bar> \<le> sqrt 2"
proof (cases "correlations_loop bell_data [] = []")
  case True
  then show ?thesis by (simp add: evaluate_bell_statistic_def)
next
  case False
  have "\<forall>c \<in> set (correlations_loop bell_data []). \<bar>c\<bar> \<le> 1"
    by (rule correlations_loop_unit) simp
  from np_mean_unit [OF this False]
  have "\<bar>np_mean (correlations_loop bell_data [])\<bar> * sqrt 2 \<le> 1 * sqrt 2"
    by (intro mult_right_mono) simp_all
  with False show ?thesis
    by (simp add: evaluate_bell_statistic_def abs_mult)
qed

lemma bell_statistic_below_threshold: "\<not> 2 < \<bar>evaluate_bell_statistic bell_data\<bar>"
  using bell_statistic_bounded [of bell_data] sqrt2_less_2 by linarith

lemma e91_protocol_discards:
  "e91_protocol_qiskit_user_input g bell_test_data = (([], []), g)"
  by (simp add: e91_protocol_qiskit_user_input_def key_decision_def bell_statistic_below_threshold)

lemma randint_list_draws:
  "randint_list k g = (map g [0..<k], \<lambda>i. g (k + i))"
proof (induction k arbitrary: g)
  case 0
  show ?case by simp
next
  case (Suc k)
  have "map g [0..<Suc k] = g 0 # map (\<lambda>i. g (Suc i)) [0..<k]"
    by (rule map_upt_Suc)
  with Suc.IH [of "\<lambda>n. g (Suc n)"] show ?case
    by (simp add: draw_def del: upt_Suc)
qed

lemma key_decision_exceeds:
  assumes "2 < \<bar>s\<bar>"
  shows "key_decision g bell_test_data s =
           ((map g [0..<length bell_test_data div 2], map g [0..<length bell_test_data div 2]),
            \<lambda>i. g (length bell_test_data div 2 + i))"
  using assms by (simp add: key_decision_def randint_list_draws)

lemma key_decision_within:
  assumes "\<not> 2 < \<bar>s\<bar>"
  shows "key_decision g bell_test_data s = (([], []), g)"
  using assms by (simp add: key_decision_def)

text \<open>
  Claim C3. A sample contributes the product of its two mapped outcomes (\<open>'0'\<close> to 1,
  anything else, so \<open>'1'\<close>, to \<open>-1\<close>) exactly when its two basis indices are both among
  0, 1, 2 and differ, which are the six off-diagonal ordered pairs; the statistic is the
  mean of the contributed products times the square root of 2, and 0 when no sample
  contributes. Mean, square root and product are the real-number ones.
\<close>

theorem bell_statistic_offdiagonal_mean:
  "correlations_loop bell_data [] =
     map (\<lambda>((a, ra), (b, rb)). (if ra = ''0'' then 1 else - 1) * (if rb = ''0'' then 1 else - 1))
       (filter (\<lambda>((a, ra), (b, rb)). a \<in> {0, 1, 2} \<and> b \<in> {0, 1, 2} \<and> a \<noteq> b) bell_data)
   \<and> evaluate_bell_statistic bell_data =
       (if filter (\<lambda>((a, ra), (b, rb)). a \<in> {0, 1, 2} \<and> b \<in> {0, 1, 2} \<and> a \<noteq> b) bell_data = []
        then 0
        else real_of_int (sum_list (correlations_loop bell_data [])) /
               real (length (correlations_loop bell_data [])) * sqrt 2)"
  by (simp add: evaluate_bell_statistic_def np_mean_def correlations_loop_filter)

theorem bell_statistic_offdiagonal_mean_witness:
  "evaluate_bell_statistic [((0, ''0''), (0, ''1'')), ((2, ''1''), (2, ''1''))] = 0
   \<and> evaluate_bell_statistic [((0, ''0''), (1, ''1'')), ((1, ''1''), (1, ''0'')), ((2, ''1''), (0, ''0''))] = - sqrt 2"
  using bell_statistic_offdiagonal_mean [of "[((0, ''0''), (0, ''1'')), ((2, ''1''), (2, ''1''))]"]
    bell_statistic_offdiagonal_mean [of "[((0, ''0''), (1, ''1'')), ((1, ''1''), (1, ''0'')), ((2, ''1''), (0, ''0''))]"]
  by simp

text \<open>
  Claim C4. For a non-empty sample list of length \<open>n\<close> the protocol is the decision step
  applied to the statistic of the list, and the decision step, for every value \<open>s\<close> of
  the statistic, returns two keys of length \<open>n div 2\<close> when the absolute value of \<open>s\<close>
  exceeds 2 and two empty keys otherwise; hence so does the protocol. (The statistic of
  this estimator stays within the bound, \<open>bell_statistic_below_threshold\<close>, which is why
  the decision is stated for every \<open>s\<close> and not only for the values the estimator
  reaches.)
\<close>

theorem e91_decision_rule:
  assumes "bell_test_data \<noteq> []"
  shows "e91_protocol_qiskit_user_input g bell_test_data =
           key_decision g bell_test_data (evaluate_bell_statistic bell_test_data)
       \<and> (2 < \<bar>s\<bar> \<longrightarrow>
            length (fst (fst (key_decision g bell_test_data s))) = length bell_test_data div 2 \<and>
            length (snd (fst (key_decision g bell_test_data s))) = length bell_test_data div 2)
       \<and> (\<not> 2 < \<bar>s\<bar> \<longrightarrow> fst (key_decision g bell_test_data s) = ([], []))
       \<and> (2 < \<bar>evaluate_bell_statistic bell_test_data\<bar> \<longrightarrow>
            length (fst (fst (e91_protocol_qiskit_user_input g bell_test_data))) =
              length bell_test_data div 2 \<and>
            length (snd (fst (e91_protocol_qiskit_user_input g bell_test_data))) =
              length bell_test_data div 2)
       \<and> (\<not> 2 < \<bar>evaluate_bell_statistic bell_test_data\<bar> \<longrightarrow>
            fst (e91_protocol_qiskit_user_input g bell_test_data) = ([], []))"
proof -
  have link: "e91_protocol_qiskit_user_input g bell_test_data =
           key_decision g bell_test_data (evaluate_bell_statistic bell_test_data)"
    using assms by (simp add: e91_protocol_qiskit_user_input_def)
  have exceeds: "\<And>t. 2 < \<bar>t\<bar> \<Longrightarrow>
      length (fst (fst (key_decision g bell_test_data t))) = length bell_test_data div 2 \<and>
      length (snd (fst (key_decision g bell_test_data t))) = length bell_test_data div 2"
    by (simp add: key_decision_exceeds)
  have within: "\<And>t. \<not> 2 < \<bar>t\<bar> \<Longrightarrow> fst (key_decision g bell_test_data t) = ([], [])"
    by (simp add: key_decision_within)
  show ?thesis
    unfolding link using exceeds within by blast
qed

theorem e91_decision_rule_witness:
  "length (fst (fst (key_decision (\<lambda>n. if even n then 1 else 0)
       [((0, ''0''), (1, ''1'')), ((1, ''0''), (2, ''1'')), ((2, ''1''), (2, ''1'')), ((0, ''1''), (2, ''0''))] 3))) = 2
   \<and> length (snd (fst (key_decision (\<lambda>n. if even n then 1 else 0)
       [((0, ''0''), (1, ''1'')), ((1, ''0''), (2, ''1'')), ((2, ''1''), (2, ''1'')), ((0, ''1''), (2, ''0''))] 3))) = 2
   \<and> fst (key_decision (\<lambda>n. if even n then 1 else 0)
       [((0, ''0''), (1, ''1'')), ((1, ''0''), (2, ''1'')), ((2, ''1''), (2, ''1'')), ((0, ''1''), (2, ''0''))] 1) = ([], [])
   \<and> e91_protocol_qiskit_user_input (\<lambda>n. if even n then 1 else 0)
       [((0, ''0''), (1, ''1'')), ((1, ''0''), (2, ''1'')), ((2, ''1''), (2, ''1'')), ((0, ''1''), (2, ''0''))] =
     key_decision (\<lambda>n. if even n then 1 else 0)
       [((0, ''0''), (1, ''1'')), ((1, ''0''), (2, ''1'')), ((2, ''1''), (2, ''1'')), ((0, ''1''), (2, ''0''))]
       (evaluate_bell_statistic
          [((0, ''0''), (1, ''1'')), ((1, ''0''), (2, ''1'')), ((2, ''1''), (2, ''1'')), ((0, ''1''), (2, ''0''))])"
proof -
  let ?d = "[((0::int, ''0''), (1::int, ''1'')), ((1, ''0''), (2, ''1'')), ((2, ''1''), (2, ''1'')),
             ((0, ''1''), (2, ''0''))]"
  have ne: "?d \<noteq> []" by simp
  have hi: "(2::real) < \<bar>3\<bar>" by simp
  have lo: "\<not> (2::real) < \<bar>1\<bar>" by simp
  note t = e91_decision_rule [OF ne, of "\<lambda>n. if even n then 1 else 0"]
  from t [of 3, THEN conjunct2, THEN conjunct1, THEN mp, OF hi]
    t [of 1, THEN conjunct2, THEN conjunct2, THEN conjunct1, THEN mp, OF lo]
    t [of 0, THEN conjunct1]
  show ?thesis by simp
qed

text \<open>
  Claim C10. The two keys the protocol returns are the same list. The protocol is the
  decision step applied to the statistic, and for every value \<open>s\<close> of the statistic
  beyond the bound the decision step hands both parties the list of the next \<open>n div 2\<close>
  draws of the randomness source, \<open>n\<close> being the number of samples: a key in which no
  outcome bit of the samples takes part. Within the bound both keys are empty. So two
  sample lists of the same length on the same side of the bound give the same result
  from the same source.
\<close>

theorem e91_keys_equal_outcome_independent:
  "fst (fst (e91_protocol_qiskit_user_input g bell_test_data)) =
     snd (fst (e91_protocol_qiskit_user_input g bell_test_data))
   \<and> (bell_test_data \<noteq> [] \<longrightarrow>
        e91_protocol_qiskit_user_input g bell_test_data =
          key_decision g bell_test_data (evaluate_bell_statistic bell_test_data))
   \<and> (2 < \<bar>s\<bar> \<longrightarrow>
        key_decision g bell_test_data s =
          ((map g [0..<length bell_test_data div 2], map g [0..<length bell_test_data div 2]),
           \<lambda>i. g (length bell_test_data div 2 + i)))
   \<and> (\<not> 2 < \<bar>s\<bar> \<longrightarrow> key_decision g bell_test_data s = (([], []), g))
   \<and> (length bell_test_data = length other_data \<and> (2 < \<bar>s\<bar>) = (2 < \<bar>s'\<bar>) \<longrightarrow>
        key_decision g bell_test_data s = key_decision g other_data s')
   \<and> (length bell_test_data = length other_data \<and>
       (2 < \<bar>evaluate_bell_statistic bell_test_data\<bar>) = (2 < \<bar>evaluate_bell_statistic other_data\<bar>) \<longrightarrow>
        e91_protocol_qiskit_user_input g bell_test_data =
          e91_protocol_qiskit_user_input g other_data)"
proof (intro conjI impI)
  show "fst (fst (e91_protocol_qiskit_user_input g bell_test_data)) =
     snd (fst (e91_protocol_qiskit_user_input g bell_test_data))"
    by (simp add: e91_protocol_qiskit_user_input_def key_decision_def split: prod.splits)
next
  assume "bell_test_data \<noteq> []"
  then show "e91_protocol_qiskit_user_input g bell_test_data =
          key_decision g bell_test_data (evaluate_bell_statistic bell_test_data)"
    by (simp add: e91_protocol_qiskit_user_input_def)
next
  assume "2 < \<bar>s\<bar>"
  then show "key_decision g bell_test_data s =
          ((map g [0..<length bell_test_data div 2], map g [0..<length bell_test_data div 2]),
           \<lambda>i. g (length bell_test_data div 2 + i))"
    by (rule key_decision_exceeds)
next
  assume "\<not> 2 < \<bar>s\<bar>"
  then show "key_decision g bell_test_data s = (([], []), g)"
    by (rule key_decision_within)
next
  assume "length bell_test_data = length other_data \<and> (2 < \<bar>s\<bar>) = (2 < \<bar>s'\<bar>)"
  then show "key_decision g bell_test_data s = key_decision g other_data s'"
    by (simp add: key_decision_def)
next
  assume a: "length bell_test_data = length other_data \<and>
       (2 < \<bar>evaluate_bell_statistic bell_test_data\<bar>) = (2 < \<bar>evaluate_bell_statistic other_data\<bar>)"
  then have "(bell_test_data = []) = (other_data = [])" by auto
  with a show "e91_protocol_qiskit_user_input g bell_test_data =
          e91_protocol_qiskit_user_input g other_data"
    by (simp add: e91_protocol_qiskit_user_input_def key_decision_def)
qed

theorem e91_keys_equal_outcome_independent_witness:
  "fst (key_decision (\<lambda>n. if even n then 1 else 0)
       [((0, ''0''), (1, ''1'')), ((1, ''0''), (2, ''0'')), ((2, ''0''), (0, ''0'')), ((1, ''1''), (0, ''0''))] 3) =
     ([1, 0], [1, 0])
   \<and> key_decision (\<lambda>n. if even n then 1 else 0)
       [((0, ''0''), (1, ''1'')), ((1, ''0''), (2, ''0'')), ((2, ''0''), (0, ''0'')), ((1, ''1''), (0, ''0''))] 3 =
     key_decision (\<lambda>n. if even n then 1 else 0)
       [((0, ''1''), (1, ''0'')), ((1, ''1''), (2, ''1'')), ((2, ''1''), (0, ''1'')), ((1, ''0''), (0, ''1''))] (- 5 / 2)
   \<and> fst (fst (e91_protocol_qiskit_user_input (\<lambda>n. if even n then 1 else 0)
       [((0, ''0''), (1, ''1'')), ((1, ''0''), (2, ''0'')), ((2, ''0''), (0, ''0'')), ((1, ''1''), (0, ''0''))])) =
     snd (fst (e91_protocol_qiskit_user_input (\<lambda>n. if even n then 1 else 0)
       [((0, ''0''), (1, ''1'')), ((1, ''0''), (2, ''0'')), ((2, ''0''), (0, ''0'')), ((1, ''1''), (0, ''0''))]))"
proof -
  let ?g = "\<lambda>n::nat. if even n then 1 else (0::int)"
  let ?d = "[((0::int, ''0''), (1::int, ''1'')), ((1, ''0''), (2, ''0'')), ((2, ''0''), (0, ''0'')),
             ((1, ''1''), (0, ''0''))]"
  let ?d' = "[((0::int, ''1''), (1::int, ''0'')), ((1, ''1''), (2, ''1'')), ((2, ''1''), (0, ''1'')),
              ((1, ''0''), (0, ''1''))]"
  note t = e91_keys_equal_outcome_independent [of ?g ?d]
  have hi: "(2::real) < \<bar>3\<bar>" by simp
  have same: "length ?d = length ?d' \<and> ((2::real) < \<bar>3\<bar>) = (2 < \<bar>- 5 / 2 :: real\<bar>)" by simp
  have key: "fst (key_decision ?g ?d 3) = ([1, 0], [1, 0])"
    using t [of 3, THEN conjunct2, THEN conjunct2, THEN conjunct1, THEN mp, OF hi]
    by (simp add: upt_rec)
  have indep: "key_decision ?g ?d 3 = key_decision ?g ?d' (- 5 / 2)"
    by (rule t [of 3 ?d' "- 5 / 2", THEN conjunct2, THEN conjunct2, THEN conjunct2,
          THEN conjunct2, THEN conjunct1, THEN mp, OF same])
  from key indep t [of 0 ?d 0, THEN conjunct1] show ?thesis by blast
qed

section \<open>Properties of BB84\<close>


lemma noise_loop_draws:
  "noise_loop bits p g acc =
     (acc @ map (\<lambda>i. if g i < p then 1 - bits ! i else bits ! i) [0..<length bits],
      \<lambda>k. g (length bits + k))"
proof (induction bits arbitrary: g acc)
  case Nil
  show ?case by simp
next
  case (Cons b rest)
  have upt: "map (\<lambda>i. if g i < p then 1 - (b # rest) ! i else (b # rest) ! i) [0..<length (b # rest)]
      = (if g 0 < p then 1 - b else b) #
        map (\<lambda>i. if g (Suc i) < p then 1 - rest ! i else rest ! i) [0..<length rest]"
    by (simp add: map_upt_Suc del: upt_Suc)
  show ?case
    unfolding upt using Cons.IH [of "\<lambda>n. g (Suc n)"]
    by (simp add: draw_def)
qed

lemma transmission_loop_ok:
  assumes "\<forall>i \<in> set idxs. i < length Sam_bits \<and> i < length Sam_bases \<and> i < num_qubits qc"
  shows "\<exists>qc'. transmission_loop Sam_bits Sam_bases idxs qc = Inr qc' \<and>
           num_qubits qc' = num_qubits qc \<and> num_clbits qc' = num_clbits qc"
  using assms
proof (induction idxs arbitrary: qc)
  case Nil
  show ?case by simp
next
  case (Cons i rest)
  have step: "\<And>q :: circuit. num_qubits q = num_qubits qc \<Longrightarrow> num_clbits q = num_clbits qc \<Longrightarrow>
     \<exists>qc'. transmission_loop Sam_bits Sam_bases rest q = Inr qc' \<and>
           num_qubits qc' = num_qubits qc \<and> num_clbits qc' = num_clbits qc"
  proof -
    fix q :: circuit assume q: "num_qubits q = num_qubits qc" "num_clbits q = num_clbits qc"
    have "\<forall>i \<in> set rest. i < length Sam_bits \<and> i < length Sam_bases \<and> i < num_qubits q"
      using Cons.prems q by simp
    from Cons.IH [OF this] q show "\<exists>qc'. transmission_loop Sam_bits Sam_bases rest q = Inr qc' \<and>
           num_qubits qc' = num_qubits qc \<and> num_clbits qc' = num_clbits qc" by simp
  qed
  have i: "i < length Sam_bits" "i < length Sam_bases" "i < num_qubits qc"
    using Cons.prems by simp_all
  show ?case
    using i step [of qc] step [of "apply_gate qc (X_gate i)"] step [of "apply_gate qc (H_gate i)"]
      step [of "apply_gate (apply_gate qc (H_gate i)) (Z_gate i)"]
    by (simp add: list_index_def circuit_x_def circuit_h_def circuit_z_def apply_gate_sizes)
qed

lemma Ron_basis_loop_ok:
  assumes "\<forall>i \<in> set idxs. i < length Ron_bases \<and> i < num_qubits qc \<and> i < num_clbits qc"
  shows "\<exists>qc'. Ron_basis_loop Ron_bases idxs qc = Inr qc'"
  using assms
proof (induction idxs arbitrary: qc)
  case Nil
  show ?case by simp
next
  case (Cons i rest)
  have step: "\<And>q :: circuit. num_qubits q = num_qubits qc \<Longrightarrow> num_clbits q = num_clbits qc \<Longrightarrow>
     \<exists>qc'. Ron_basis_loop Ron_bases rest q = Inr qc'"
  proof -
    fix q :: circuit assume q: "num_qubits q = num_qubits qc" "num_clbits q = num_clbits qc"
    have "\<forall>i \<in> set rest. i < length Ron_bases \<and> i < num_qubits q \<and> i < num_clbits q"
      using Cons.prems q by simp
    from Cons.IH [OF this] show "\<exists>qc'. Ron_basis_loop Ron_bases rest q = Inr qc'" .
  qed
  have i: "i < length Ron_bases" "i < num_qubits qc" "i < num_clbits qc"
    using Cons.prems by simp_all
  show ?case
    using i step [of "apply_gate qc (Measure i i)"]
      step [of "apply_gate (apply_gate qc (H_gate i)) (Measure i i)"]
    by (simp add: list_index_def circuit_h_def circuit_measure_def apply_gate_sizes)
qed

lemma bb84_request_built:
  assumes "length Sam_bases = length Sam_bits" and "length Ron_bases = length Sam_bits"
  shows "\<exists>circs qc. Sam_transmission_multi_qubit Sam_bits Sam_bases = Inr circs \<and>
           Ron_measurement_circuit circs Ron_bases = Inr qc"
proof -
  let ?n = "length Sam_bits"
  have "\<forall>i \<in> set [0..<?n]. i < length Sam_bits \<and> i < length Sam_bases \<and>
          i < num_qubits (QuantumCircuit ?n ?n)"
    using assms by (simp add: QuantumCircuit_def)
  from transmission_loop_ok [OF this]
  obtain q where q: "transmission_loop Sam_bits Sam_bases [0..<?n] (QuantumCircuit ?n ?n) = Inr q"
    "num_qubits q = ?n" "num_clbits q = ?n"
    by (auto simp: QuantumCircuit_def)
  have "\<forall>i \<in> set [0..<num_qubits q]. i < length Ron_bases \<and> i < num_qubits q \<and> i < num_clbits q"
    using assms q by simp
  from Ron_basis_loop_ok [OF this]
  obtain qc where "Ron_basis_loop Ron_bases [0..<num_qubits q] q = Inr qc" by blast
  with q show ?thesis
    by (simp add: Sam_transmission_multi_qubit_def Ron_measurement_circuit_def list_index_def)
qed

text \<open>
  Claim C7, as stated, fails: nothing validates the noise probability. With
  \<open>noise_level = 2\<close> the run goes through, and the receiver's bit is flipped as it would
  be with probability 1.
\<close>

theorem bb84_noise_out_of_range_counterexample:
  "map_sum id fst (bb84_main \<lparr>respond = (\<lambda>qc. ''0''), requests = []\<rparr> (\<lambda>n. 1 / 2) 2 [0] [0] [0]) =
     Inr ([0], [1])"
  by (simp add: bb84_main_def Sam_transmission_multi_qubit_def Ron_measurement_multi_qubit_with_noise_def
      Ron_measurement_circuit_def QuantumCircuit_def list_index_def circuit_measure_def apply_gate_def
      run_single_shot_def py_int_def draw_def basis_reconciliation_def)

text \<open>
  Claim C7, amended. The noise step accepts every probability and cannot fail: it
  consumes one draw per outcome, in order, and flips outcome \<open>i\<close> exactly when the
  \<open>i\<close>-th draw is below the probability. With draws in the half-open unit interval, a
  probability of 1 or more therefore flips every outcome, as 1 does, and a probability of
  0 or less flips none, as 0 does. How often a draw falls below the probability is a
  property of the generator, not of this code, and is not stated.
\<close>

theorem noise_unvalidated_probability:
  "noise_loop measured_bits noise_probability g [] =
     (map (\<lambda>i. if g i < noise_probability then 1 - measured_bits ! i else measured_bits ! i)
        [0..<length measured_bits],
      \<lambda>k. g (length measured_bits + k))
   \<and> ((\<forall>k. 0 \<le> g k \<and> g k < 1) \<and> 1 \<le> noise_probability \<longrightarrow>
        fst (noise_loop measured_bits noise_probability g []) = map (\<lambda>b. 1 - b) measured_bits)
   \<and> ((\<forall>k. 0 \<le> g k \<and> g k < 1) \<and> noise_probability \<le> 0 \<longrightarrow>
        fst (noise_loop measured_bits noise_probability g []) = measured_bits)"
proof (intro conjI impI)
  show "noise_loop measured_bits noise_probability g [] =
     (map (\<lambda>i. if g i < noise_probability then 1 - measured_bits ! i else measured_bits ! i)
        [0..<length measured_bits],
      \<lambda>k. g (length measured_bits + k))"
    using noise_loop_draws [of measured_bits noise_probability g "[]"] by simp
next
  assume a: "(\<forall>k. 0 \<le> g k \<and> g k < 1) \<and> 1 \<le> noise_probability"
  then have "\<And>i. g i < noise_probability" by (meson less_le_trans)
  then have "fst (noise_loop measured_bits noise_probability g []) =
      map (\<lambda>i. 1 - measured_bits ! i) [0..<length measured_bits]"
    by (simp add: noise_loop_draws)
  also have "\<dots> = map (\<lambda>b. 1 - b) (map (\<lambda>i. measured_bits ! i) [0..<length measured_bits])"
    by (simp add: comp_def)
  also have "\<dots> = map (\<lambda>b. 1 - b) measured_bits"
    by (simp only: map_nth)
  finally show "fst (noise_loop measured_bits noise_probability g []) = map (\<lambda>b. 1 - b) measured_bits" .
next
  assume a: "(\<forall>k. 0 \<le> g k \<and> g k < 1) \<and> noise_probability \<le> 0"
  then have "\<And>i. \<not> g i < noise_probability" by (meson not_less le_less_trans order_trans)
  then show "fst (noise_loop measured_bits noise_probability g []) = measured_bits"
    by (simp add: noise_loop_draws map_nth)
qed

theorem noise_unvalidated_probability_witness:
  "fst (noise_loop [0, 1, 1] 3 (\<lambda>n. 1 / 2) []) = [1, 0, 0]
   \<and> fst (noise_loop [0, 1, 1] (- 1) (\<lambda>n. 1 / 2) []) = [0, 1, 1]"
proof -
  have d: "\<forall>k::nat. (0::real) \<le> 1 / 2 \<and> (1::real) / 2 < 1" by simp
  note t = noise_unvalidated_probability [of "[0, 1, 1]" _ "\<lambda>n. 1 / 2"]
  have a: "fst (noise_loop [0, 1, 1] 3 (\<lambda>n. 1 / 2) []) = map (\<lambda>b. 1 - b) [0, 1, 1]"
    by (rule t [THEN conjunct2, THEN conjunct1, THEN mp]) simp
  have b: "fst (noise_loop [0, 1, 1] (- 1) (\<lambda>n. 1 / 2) []) = [0, 1, 1]"
    by (rule t [THEN conjunct2, THEN conjunct2, THEN mp]) simp
  from a b show ?thesis by simp
qed


lemma transmission_loop_gates:
  assumes "\<forall>i \<in> set idxs. i < length Sam_bits \<and> i < length Sam_bases \<and> i < num_qubits qc"
  shows "transmission_loop Sam_bits Sam_bases idxs qc =
           Inr (qc\<lparr>instructions := instructions qc @
                  concat (map (\<lambda>i. sam_gates (Sam_bits ! i) (Sam_bases ! i) i) idxs)\<rparr>)"
  using assms
proof (induction idxs arbitrary: qc)
  case Nil
  show ?case by simp
next
  case (Cons i rest)
  have step: "\<And>q :: circuit. num_qubits q = num_qubits qc \<Longrightarrow>
     transmission_loop Sam_bits Sam_bases rest q =
       Inr (q\<lparr>instructions := instructions q @
              concat (map (\<lambda>i. sam_gates (Sam_bits ! i) (Sam_bases ! i) i) rest)\<rparr>)"
  proof -
    fix q :: circuit assume q: "num_qubits q = num_qubits qc"
    have "\<forall>i \<in> set rest. i < length Sam_bits \<and> i < length Sam_bases \<and> i < num_qubits q"
      using Cons.prems q by simp
    from Cons.IH [OF this] show "transmission_loop Sam_bits Sam_bases rest q =
       Inr (q\<lparr>instructions := instructions q @
              concat (map (\<lambda>i. sam_gates (Sam_bits ! i) (Sam_bases ! i) i) rest)\<rparr>)" .
  qed
  have i: "i < length Sam_bits" "i < length Sam_bases" "i < num_qubits qc"
    using Cons.prems by simp_all
  show ?case
    using i step [of qc] step [of "apply_gate qc (X_gate i)"] step [of "apply_gate qc (H_gate i)"]
      step [of "apply_gate (apply_gate qc (H_gate i)) (Z_gate i)"]
    by (simp add: list_index_def circuit_x_def circuit_h_def circuit_z_def apply_gate_sizes
        sam_gates_def) (simp add: apply_gate_def)
qed

lemma Ron_basis_loop_gates:
  assumes "\<forall>i \<in> set idxs. i < length Ron_bases \<and> i < num_qubits qc \<and> i < num_clbits qc"
  shows "Ron_basis_loop Ron_bases idxs qc =
           Inr (qc\<lparr>instructions := instructions qc @
                  concat (map (\<lambda>i. ron_gates (Ron_bases ! i) i) idxs)\<rparr>)"
  using assms
proof (induction idxs arbitrary: qc)
  case Nil
  show ?case by simp
next
  case (Cons i rest)
  have step: "\<And>q :: circuit. num_qubits q = num_qubits qc \<Longrightarrow> num_clbits q = num_clbits qc \<Longrightarrow>
     Ron_basis_loop Ron_bases rest q =
       Inr (q\<lparr>instructions := instructions q @
              concat (map (\<lambda>i. ron_gates (Ron_bases ! i) i) rest)\<rparr>)"
  proof -
    fix q :: circuit assume q: "num_qubits q = num_qubits qc" "num_clbits q = num_clbits qc"
    have "\<forall>i \<in> set rest. i < length Ron_bases \<and> i < num_qubits q \<and> i < num_clbits q"
      using Cons.prems q by simp
    from Cons.IH [OF this] show "Ron_basis_loop Ron_bases rest q =
       Inr (q\<lparr>instructions := instructions q @
              concat (map (\<lambda>i. ron_gates (Ron_bases ! i) i) rest)\<rparr>)" .
  qed
  have i: "i < length Ron_bases" "i < num_qubits qc" "i < num_clbits qc"
    using Cons.prems by simp_all
  show ?case
    using i step [of "apply_gate qc (Measure i i)"]
      step [of "apply_gate (apply_gate qc (H_gate i)) (Measure i i)"]
    by (simp add: list_index_def circuit_h_def circuit_measure_def apply_gate_sizes ron_gates_def)
       (simp add: apply_gate_def)
qed

lemma consistent_run_sam:
  "consistent_run (sam_gates abit basis i @ rest) st s =
     consistent_run rest (st(i := sam_state abit basis (st i))) s"
  by (simp add: sam_gates_def sam_state_def)

lemma consistent_run_tx:
  "consistent_run (concat (map (\<lambda>i. sam_gates (bits ! i) (bases ! i) i) idxs) @ rest) st s =
     consistent_run rest (foldl (\<lambda>st i. st(i := sam_state (bits ! i) (bases ! i) (st i))) st idxs) s"
  by (induction idxs arbitrary: st) (simp_all add: consistent_run_sam)

lemma foldl_update_distinct:
  "distinct idxs \<Longrightarrow>
   foldl (\<lambda>st i. st(i := f i (st i))) st idxs j = (if j \<in> set idxs then f j (st j) else st j)"
  by (induction idxs arbitrary: st) auto

lemma consistent_run_rx:
  assumes "consistent_run (concat (map (\<lambda>i. ron_gates (rb ! i) i) idxs)) st s"
    and "distinct idxs" and "j \<in> set idxs"
  shows "outcome_allowed (if rb ! j = 1 then hadamard (st j) else st j) (rev s ! j)"
  using assms
proof (induction idxs arbitrary: st)
  case Nil
  then show ?case by simp
next
  case (Cons i rest)
  let ?mid = "if rb ! i = 1 then st(i := hadamard (st i)) else st"
  let ?st' = "?mid(i := if rev s ! i = CHR ''0'' then Ket0 else Ket1)"
  from Cons.prems(1)
  have here: "outcome_allowed (?mid i) (rev s ! i)"
    and tail: "consistent_run (concat (map (\<lambda>i. ron_gates (rb ! i) i) rest)) ?st' s"
    by (auto simp: ron_gates_def split: if_splits)
  show ?case
  proof (cases "j = i")
    case True
    with here show ?thesis by (simp split: if_splits)
  next
    case False
    with Cons.prems have j: "j \<in> set rest" and d: "distinct rest" by simp_all
    from Cons.IH [OF tail d j] False show ?thesis by (simp split: if_splits)
  qed
qed

lemma ints_of_chars_binary:
  "set cs \<subseteq> {CHR ''0'', CHR ''1''} \<Longrightarrow>
   ints_of_chars cs = Inr (map (\<lambda>c. if c = CHR ''0'' then 0 else 1) cs)"
  by (induction cs) (auto simp: py_int_def Let_def)


lemma bb84_request_instructions:
  assumes "length Sam_bases = length Sam_bits" and "length Ron_bases = length Sam_bits"
    and "Sam_transmission_multi_qubit Sam_bits Sam_bases = Inr circs"
    and "Ron_measurement_circuit circs Ron_bases = Inr qc"
  shows "num_clbits qc = length Sam_bits \<and>
         instructions qc =
           concat (map (\<lambda>i. sam_gates (Sam_bits ! i) (Sam_bases ! i) i) [0..<length Sam_bits]) @
           concat (map (\<lambda>i. ron_gates (Ron_bases ! i) i) [0..<length Sam_bits])"
proof -
  let ?n = "length Sam_bits"
  let ?q1 = "(QuantumCircuit ?n ?n)\<lparr>instructions := instructions (QuantumCircuit ?n ?n) @
      concat (map (\<lambda>i. sam_gates (Sam_bits ! i) (Sam_bases ! i) i) [0..<?n])\<rparr>"
  have "\<forall>i \<in> set [0..<?n]. i < length Sam_bits \<and> i < length Sam_bases \<and>
          i < num_qubits (QuantumCircuit ?n ?n)"
    using assms(1) by (simp add: QuantumCircuit_def)
  from transmission_loop_gates [OF this] assms(3)
  have circs: "circs = [?q1]"
    by (simp add: Sam_transmission_multi_qubit_def Let_def)
  have sizes: "num_qubits ?q1 = ?n" "num_clbits ?q1 = ?n"
    by (simp_all add: QuantumCircuit_def)
  have "\<forall>i \<in> set [0..<?n]. i < length Ron_bases \<and> i < num_qubits ?q1 \<and> i < num_clbits ?q1"
    using assms(2) sizes by simp
  from Ron_basis_loop_gates [OF this] assms(4)
  have "qc = ?q1\<lparr>instructions := instructions ?q1 @
      concat (map (\<lambda>i. ron_gates (Ron_bases ! i) i) [0..<?n])\<rparr>"
    unfolding circs by (simp add: Ron_measurement_circuit_def list_index_def sizes)
  then show ?thesis by (simp add: QuantumCircuit_def)
qed

lemma bb84_matched_outcome:
  assumes "length Sam_bases = length Sam_bits" and "length Ron_bases = length Sam_bits"
    and "set Sam_bits \<subseteq> {0, 1}" and "set Sam_bases \<subseteq> {0, 1}"
    and "Sam_transmission_multi_qubit Sam_bits Sam_bases = Inr circs"
    and "Ron_measurement_circuit circs Ron_bases = Inr qc"
    and "consistent_outcome qc s"
    and "i < length Sam_bits" and "Sam_bases ! i = Ron_bases ! i"
  shows "rev s ! i = (if Sam_bits ! i = 0 then CHR ''0'' else CHR ''1'')"
proof -
  let ?n = "length Sam_bits"
  let ?st = "foldl (\<lambda>st i. st(i := sam_state (Sam_bits ! i) (Sam_bases ! i) (st i)))
               (\<lambda>q. Ket0) [0..<?n]"
  from bb84_request_instructions [OF assms(1,2,5,6)] assms(7)
  have "consistent_run
          (concat (map (\<lambda>i. sam_gates (Sam_bits ! i) (Sam_bases ! i) i) [0..<?n]) @
           concat (map (\<lambda>i. ron_gates (Ron_bases ! i) i) [0..<?n])) (\<lambda>q. Ket0) s"
    by (simp add: consistent_outcome_def)
  then have rx: "consistent_run (concat (map (\<lambda>i. ron_gates (Ron_bases ! i) i) [0..<?n])) ?st s"
    by (simp only: consistent_run_tx)
  have st: "?st i = sam_state (Sam_bits ! i) (Sam_bases ! i) Ket0"
    using assms(8) by (subst foldl_update_distinct) simp_all
  have allowed: "outcome_allowed (if Ron_bases ! i = 1 then hadamard (?st i) else ?st i) (rev s ! i)"
    using assms(8) by (intro consistent_run_rx [OF rx]) simp_all
  have "Sam_bits ! i \<in> {0, 1}" using assms(3,8) nth_mem by blast
  then have bit: "Sam_bits ! i = 0 \<or> Sam_bits ! i = 1" by blast
  have "Sam_bases ! i \<in> {0, 1}" using assms(1,4,8) nth_mem by (metis subsetD)
  then have basis: "Sam_bases ! i = 0 \<or> Sam_bases ! i = 1" by blast
  from allowed bit basis assms(9) show ?thesis
    unfolding st by (auto simp: sam_state_def)
qed

text \<open>
  Claim C8. Take a run with aligned inputs over \<open>{0, 1}\<close> and draws in the half-open
  unit interval, and let the channel's answer to the run's request be an outcome the
  request's circuit can produce (\<open>consistent_outcome\<close>: the sender's gates, the
  receiver's basis changes and the measurements decide which outcomes those are). With
  noise probability 1 the run returns, for the positions where the two bases agree, the
  sender's bits as the sender's key and their complements \<open>1 - b\<close> as the receiver's
  key; with noise probability 0 and the same draws the noise step returns any list of
  measured bits unchanged. By \<open>bb84_request_built\<close> the request exists for all aligned
  inputs; \<open>bb84_matched_outcome\<close> is where the sender's preparation, the receiver's
  measurement circuit and the reordering of the outcome string are used.
\<close>


theorem bb84_full_noise_complements:
  assumes "length Sam_bases = length Sam_bits"
    and "length Ron_bases = length Sam_bits"
    and "set Sam_bits \<subseteq> {0, 1}"
    and "set Sam_bases \<subseteq> {0, 1}"
    and "\<forall>k. 0 \<le> g k \<and> g k < 1"
    and "Sam_transmission_multi_qubit Sam_bits Sam_bases = Inr circs"
    and "Ron_measurement_circuit circs Ron_bases = Inr qc"
    and "consistent_outcome qc (respond ch qc)"
  shows "(\<exists>ch' g'. bb84_main ch g 1 Sam_bits Sam_bases Ron_bases =
            Inr ((map (\<lambda>i. Sam_bits ! i)
                    (filter (\<lambda>i. Sam_bases ! i = Ron_bases ! i) [0..<length Sam_bases]),
                  map (\<lambda>i. 1 - Sam_bits ! i)
                    (filter (\<lambda>i. Sam_bases ! i = Ron_bases ! i) [0..<length Sam_bases])),
                 ch', g'))
       \<and> fst (noise_loop measured_bits 0 g []) = measured_bits"
proof
  let ?n = "length Sam_bits"
  let ?s = "respond ch qc"
  let ?mb = "map (\<lambda>c. if c = CHR ''0'' then 0 else 1 :: int) (rev ?s)"
  let ?M = "filter (\<lambda>i. Sam_bases ! i = Ron_bases ! i) [0..<length Sam_bases]"
  let ?noisy = "map (\<lambda>i. if g i < 1 then 1 - ?mb ! i else ?mb ! i) [0..<length ?s]"
  let ?g' = "\<lambda>k. g (length ?s + k)"
  let ?ch' = "ch\<lparr>requests := requests ch @ [qc]\<rparr>"
  have len: "length ?s = ?n"
    using bb84_request_instructions [OF assms(1,2,6,7)] assms(8)
    by (simp add: consistent_outcome_def)
  have ints: "ints_of_chars (rev ?s) = Inr ?mb"
    using assms(8) by (intro ints_of_chars_binary) (simp add: consistent_outcome_def)
  have noise: "noise_loop ?mb 1 g [] = (?noisy, ?g')"
    using noise_loop_draws [of ?mb 1 g "[]"] by simp
  have ron: "Ron_measurement_multi_qubit_with_noise ch g circs Ron_bases 1 = Inr (?noisy, ?ch', ?g')"
    by (simp add: Ron_measurement_multi_qubit_with_noise_def assms(7) run_single_shot_def
        ints noise)
  have "\<forall>i \<in> set [0..<length Sam_bases]. i < length Sam_bases \<and> i < length Ron_bases \<and>
          i < length Sam_bits \<and> i < length ?noisy"
    using assms(1,2) len by simp
  from reconcile_loop_in_range [OF this, of "[]" "[]"]
  have rec: "basis_reconciliation Sam_bases Ron_bases Sam_bits ?noisy =
      Inr (map (\<lambda>i. Sam_bits ! i) ?M, map (\<lambda>i. ?noisy ! i) ?M)"
    by (simp add: basis_reconciliation_def)
  have flip: "map (\<lambda>i. ?noisy ! i) ?M = map (\<lambda>i. 1 - Sam_bits ! i) ?M"
  proof (rule map_cong [OF refl])
    fix i assume "i \<in> set ?M"
    then have i: "i < ?n" and m: "Sam_bases ! i = Ron_bases ! i"
      using assms(1) by simp_all
    have "Sam_bits ! i \<in> {0, 1}" using assms(3) i nth_mem by blast
    then have bit: "Sam_bits ! i = 0 \<or> Sam_bits ! i = 1" by blast
    from bb84_matched_outcome [OF assms(1,2,3,4,6,7,8) i m] bit
    have "?mb ! i = Sam_bits ! i"
      using i len by (auto simp: nth_map)
    moreover have "g i < 1" using assms(5) by blast
    ultimately show "?noisy ! i = 1 - Sam_bits ! i"
      using i len by simp
  qed
  have "bb84_main ch g 1 Sam_bits Sam_bases Ron_bases =
      Inr ((map (\<lambda>i. Sam_bits ! i) ?M, map (\<lambda>i. 1 - Sam_bits ! i) ?M), ?ch', ?g')"
    by (simp add: bb84_main_def assms(6) ron rec flip)
  then show "\<exists>ch' g'. bb84_main ch g 1 Sam_bits Sam_bases Ron_bases =
            Inr ((map (\<lambda>i. Sam_bits ! i) ?M, map (\<lambda>i. 1 - Sam_bits ! i) ?M), ch', g')"
    by blast
next
  have "\<And>i. \<not> g i < 0" using assms(5) by (simp add: not_less)
  then show "fst (noise_loop measured_bits 0 g []) = measured_bits"
    by (simp add: noise_loop_draws map_nth)
qed

theorem bb84_full_noise_complements_witness:
  "(\<exists>ch' g'. bb84_main \<lparr>respond = (\<lambda>qc. ''010''), requests = []\<rparr> (\<lambda>n. 1 / 2) 1
       [1, 1, 0] [0, 1, 1] [1, 1, 1] = Inr (([1, 0], [0, 1]), ch', g'))
   \<and> fst (noise_loop [0, 1, 0] 0 (\<lambda>n. 1 / 2) []) = [0, 1, 0]"
proof -
  have tx: "Sam_transmission_multi_qubit [1, 1, 0] [0, 1, 1] =
      Inr [\<lparr>num_qubits = 3, num_clbits = 3,
            instructions = [X_gate 0, H_gate 1, Z_gate 1, H_gate 2]\<rparr>]"
    by (simp add: Sam_transmission_multi_qubit_def QuantumCircuit_def list_index_def upt_rec
        circuit_x_def circuit_h_def circuit_z_def apply_gate_def)
  have rx: "Ron_measurement_circuit
       [\<lparr>num_qubits = 3, num_clbits = 3,
         instructions = [X_gate 0, H_gate 1, Z_gate 1, H_gate 2]\<rparr>] [1, 1, 1] =
      Inr \<lparr>num_qubits = 3, num_clbits = 3,
           instructions = [X_gate 0, H_gate 1, Z_gate 1, H_gate 2,
             H_gate 0, Measure 0 0, H_gate 1, Measure 1 1, H_gate 2, Measure 2 2]\<rparr>"
    by (simp add: Ron_measurement_circuit_def list_index_def upt_rec
        circuit_h_def circuit_measure_def apply_gate_def)
  have ok: "consistent_outcome
       \<lparr>num_qubits = 3, num_clbits = 3,
           instructions = [X_gate 0, H_gate 1, Z_gate 1, H_gate 2,
             H_gate 0, Measure 0 0, H_gate 1, Measure 1 1, H_gate 2, Measure 2 2]\<rparr>
       (respond \<lparr>respond = (\<lambda>qc. ''010''), requests = []\<rparr>
          \<lparr>num_qubits = 3, num_clbits = 3,
           instructions = [X_gate 0, H_gate 1, Z_gate 1, H_gate 2,
             H_gate 0, Measure 0 0, H_gate 1, Measure 1 1, H_gate 2, Measure 2 2]\<rparr>)"
    by (simp add: consistent_outcome_def)
  have draws: "\<forall>k::nat. (0::real) \<le> 1 / 2 \<and> (1::real) / 2 < 1" by simp
  from bb84_full_noise_complements [OF _ _ _ _ draws tx rx ok, of "[0, 1, 0]"]
  show ?thesis by (simp add: upt_rec)
qed

end
